theory Spec2Isabelle
  imports Complex_Main "HOL-Library.Word"
begin

section \<open>The player of pianobar-save: data\<close>

text \<open>
  A shallow embedding of \<^verbatim>\<open>src/player.c\<close>: the worker thread \<^verbatim>\<open>BarPlayerThread\<close> with
  \<^verbatim>\<open>openStream\<close>, \<^verbatim>\<open>openFilter\<close>, \<^verbatim>\<open>openDevice\<close>, \<^verbatim>\<open>play\<close>, \<^verbatim>\<open>finish\<close> and
  the watchdog callback \<^verbatim>\<open>intCb\<close>, in the configuration without \<^verbatim>\<open>HAVE_AV_TIMEOUT\<close>
  (the one in which the watchdog exists).

  The stream, filter and device libraries, the file system and the controlling thread are
  the environment. What they answer is given by scripts: one \<open>session\<close> per call of
  \<^verbatim>\<open>openStream\<close>, one \<open>read_call\<close> per call of \<^verbatim>\<open>av_read_frame\<close>, one
  \<open>decode_call\<close> per call of \<^verbatim>\<open>avcodec_decode_audio4\<close>. A script that is used up
  stands for a call that never returns (\<open>Blocked\<close>). Every call the code makes into the
  environment is written to a list of events, in program order.

  The flags \<^verbatim>\<open>doQuit\<close> and \<^verbatim>\<open>doPause\<close> are fields of the shared structure, written by
  the controlling thread while the worker is inside a library call: each script entry
  lists the requests that arrive during that call.

  Not modelled: the floating-point fields \<^verbatim>\<open>songPlayed\<close> and \<^verbatim>\<open>songDuration\<close>, the
  volume computation, and the sizes of the character buffers (paths are taken to fit
  their 1000-byte buffers; beyond that the C code has no defined behaviour).
\<close>

type_synonym AVRational = "int \<times> int"

record AVPacket =
  stream_index :: int
  pts :: int
  dts :: int
  pkt_size :: int

text \<open>Requests of the controlling thread (the caller's API of the spec, section 6).\<close>

datatype ctl = RequestPause | RequestResume | RequestQuit

datatype event =
    Ctl ctl
  | Ping "64 word"
  | OpenInput string
  | FindStreamInfo
  | FindBestStream
  | CodecOpen
  | SeekFrame int int
  | Mkdir string
  | AvioOpen string
  | WriteHeader
  | AoOpenLive
  | QuitSeen
  | ReadFrame int AVPacket
  | WriteFrame int int int
  | ReadPause
  | CondWait
  | ReadPlay
  | DecodeAudio int
  | BuffersrcWrite
  | AoPlay int
  | AoClose
  | GraphFree
  | CodecClose
  | CloseInput
  | WriteTrailer
  | FreeContext
  | AvioClose
  | System string

text \<open>
  Modelled from the spec: the enumerations of \<^verbatim>\<open>player.h\<close>, which is not among the
  sources. The spec names the modes OPENING, PLAYING, FINISHED and the results OK,
  SOFTFAIL, HARDFAIL; the code uses \<^verbatim>\<open>PLAYER_PLAYING\<close>, \<^verbatim>\<open>PLAYER_FINISHED\<close> and
  \<^verbatim>\<open>PLAYER_RET_*\<close>.
\<close>

datatype player_mode = PLAYER_OPENING | PLAYER_PLAYING | PLAYER_FINISHED

datatype player_ret = PLAYER_RET_OK | PLAYER_RET_SOFTFAIL | PLAYER_RET_HARDFAIL

record BarSettings_t =
  save_dir :: "string option"

text \<open>The output context \<^verbatim>\<open>ofcx\<close> with its single stream \<^verbatim>\<open>ost\<close>.\<close>

record out_ctx =
  oc_path :: string
  ost_id :: int
  ost_time_base :: AVRational

text \<open>
  \<^verbatim>\<open>player_t\<close>. The pointers \<^verbatim>\<open>fctx\<close>, \<^verbatim>\<open>st\<close>, \<^verbatim>\<open>fgraph\<close>, \<^verbatim>\<open>aoDev\<close> are
  booleans (not \<^verbatim>\<open>NULL\<close>); \<open>ofcx = None\<close> is the indeterminate pointer that
  \<^verbatim>\<open>openStream\<close> stores when it does not record.
\<close>

record player_t =
  url :: string
  station :: string
  artist :: string
  title :: string
  settings :: BarSettings_t
  doQuit :: bool
  doPause :: bool
  mode :: player_mode
  lastTimestamp :: int
  ping :: "64 word"
  streamIdx :: int
  fctx :: bool
  st :: bool
  fgraph :: bool
  aoDev :: bool
  save_file :: bool
  tmp_filename :: string
  save_complete :: string
  ofcx :: "out_ctx option"
  pkt_write :: AVPacket

subsection \<open>The environment's scripts\<close>

text \<open>A buffer read from the filter sink, and the answer of \<^verbatim>\<open>avfilter_copy_buf_props\<close>.\<close>

record audio_buf =
  props_ret :: int
  nb_samples :: int
  nb_channels :: int
  bps :: int

record decode_call =
  dc_ctl :: "ctl list"
  decoded :: int
  got_frame :: bool
  src_ret :: int
  filtered :: "audio_buf list"

text \<open>
  One iteration of the loop of \<^verbatim>\<open>play\<close>: the time read by \<^verbatim>\<open>ping\<close>, the answer of
  \<^verbatim>\<open>av_read_frame\<close>, the returns of \<^verbatim>\<open>pthread_cond_wait\<close> in the pause gate (each with
  the requests that arrived before it) and the decoder's answers.
\<close>

record read_call =
  rd_now :: "64 word"
  rd_ctl :: "ctl list"
  rd_ret :: int
  rd_pkt :: AVPacket
  rd_wakes :: "ctl list list"
  rd_decodes :: "decode_call list"

record filter_lib =
  graph_alloc_ok :: bool
  abuffer_ret :: int
  volume_ret :: int
  aformat_ret :: int
  abuffersink_ret :: int
  link_rets :: "int \<times> int \<times> int"
  graph_config_ret :: int

text \<open>
  One pass through the body of the retry loop. \<open>existing\<close> are the paths for which
  \<^verbatim>\<open>stat\<close> and \<^verbatim>\<open>access\<close> succeed; \<open>codec_time_base i\<close> is
  \<^verbatim>\<open>fctx->streams[i]->codec->time_base\<close>, \<open>st_time_base\<close> the time base of the selected
  stream; \<open>write_header\<close> is what \<^verbatim>\<open>avformat_write_header\<close> makes of the time base the
  code asks for; \<open>rescale_q\<close> is the library's \<^verbatim>\<open>av_rescale_q\<close>.
\<close>

record session =
  open_ctl :: "ctl list"
  now_open :: "64 word"
  open_input_ret :: int
  now_info :: "64 word"
  stream_info_ret :: int
  now_best :: "64 word"
  best_stream :: int
  decoder_found :: bool
  codec_open_ret :: int
  now_seek :: "64 word"
  st_time_base :: AVRational
  codec_time_base :: "int \<Rightarrow> AVRational"
  existing :: "string set"
  new_stream_id :: int
  write_header :: "AVRational \<Rightarrow> AVRational"
  rescale_q :: "int \<Rightarrow> AVRational \<Rightarrow> AVRational \<Rightarrow> int"
  filt :: filter_lib
  ao_open_ok :: bool
  frames_alloc_ok :: bool
  reads :: "read_call list"
  close_ctl :: "ctl list"

text \<open>
  Why a call does not return: the environment never answers (\<open>Blocked\<close>), or an
  \<^verbatim>\<open>assert\<close> of the code fails and the process aborts (\<open>AssertFailed\<close>).
\<close>

datatype stop = Blocked | AssertFailed

type_synonym 'a run = "stop + (event list \<times> 'a)"

fun emit :: "event list \<Rightarrow> 'a run \<Rightarrow> 'a run" where
  "emit es (Inl x) = Inl x"
| "emit es (Inr (es', a)) = Inr (es @ es', a)"

section \<open>The code\<close>

subsection \<open>Requests of the controlling thread\<close>

text \<open>
  Modelled from the spec: the caller is not among the sources. \<open>requestPause\<close> and
  \<open>requestResume\<close> set and clear \<^verbatim>\<open>doPause\<close>, \<open>requestQuit\<close> sets \<^verbatim>\<open>doQuit\<close>; nothing
  clears \<^verbatim>\<open>doQuit\<close>.
\<close>

fun request :: "ctl \<Rightarrow> player_t \<Rightarrow> player_t" where
  "request RequestPause p = p\<lparr>doPause := True\<rparr>"
| "request RequestResume p = p\<lparr>doPause := False\<rparr>"
| "request RequestQuit p = p\<lparr>doQuit := True\<rparr>"

fun requests :: "ctl list \<Rightarrow> player_t \<Rightarrow> player_t" where
  "requests [] p = p"
| "requests (c # cs) p = requests cs (request c p)"

subsection \<open>The watchdog (lines 118-134)\<close>

text \<open>
  \<^verbatim>\<open>return (av_gettime () - player->ping) > 10*1000000;\<close> on 64-bit signed integers;
  the subtraction wraps around.
\<close>

definition intCb :: "64 word \<Rightarrow> player_t \<Rightarrow> bool" where
  "intCb now p = (10000000 <s now - ping p)"

subsection \<open>Library constants and functions\<close>

text \<open>
  \<^verbatim>\<open>AVERROR_INVALIDDATA\<close> of libavutil: \<^verbatim>\<open>-MKTAG('I','N','D','A')\<close>.
\<close>

definition AVERROR_INVALIDDATA :: int where
  "AVERROR_INVALIDDATA = - 1094995529"

text \<open>
  libavutil's \<^verbatim>\<open>av_rescale_q (a, bq, cq)\<close>, a function from 64-bit integers to 64-bit
  integers: \<open>a * bq / cq\<close> rounded to the nearest integer, halfway cases away from zero.
  It returns \<^verbatim>\<open>INT64_MIN\<close> for a time base that is not positive and when the rounded
  value does not fit into 64 bits; a negative \<open>a\<close> is rescaled as \<open>- a\<close>, with
  \<^verbatim>\<open>INT64_MIN\<close> taken as \<^verbatim>\<open>- INT64_MAX\<close>, and the result negated. The products of the
  numerators and denominators, which are C \<^verbatim>\<open>int\<close>s, fit into 64 bits; the library
  computes \<open>a * b\<close> without loss. The function is not part of this repository: the
  code below takes it from the session (\<open>rescale_q\<close>), and this definition is the
  instance used where the library's arithmetic matters.
\<close>

definition av_rescale_q :: "int \<Rightarrow> AVRational \<Rightarrow> AVRational \<Rightarrow> int" where
  "av_rescale_q a bq cq =
     (let b = fst bq * snd cq; c = fst cq * snd bq
      in if c \<le> 0 \<or> b < 0 then - (2 ^ 63)
         else if a < 0 then
           (let r = (- max a (- (2 ^ 63 - 1)) * b + c div 2) div c
            in if 2 ^ 63 - 1 < r then - (2 ^ 63) else - r)
         else
           (let r = (a * b + c div 2) div c
            in if 2 ^ 63 - 1 < r then - (2 ^ 63) else r))"

subsection \<open>openStream (lines 136-284)\<close>

text \<open>
  Lines 223-230. For an empty \<^verbatim>\<open>save_dir\<close> the C code reads the byte before the string;
  the model takes the \<^verbatim>\<open>else\<close> branch there. The \<^verbatim>\<open>sprintf\<close> of line 230 writes
  \<^verbatim>\<open>save_path\<close> from itself; the model appends, as the code means to.
\<close>

definition save_path_of :: "string \<Rightarrow> string \<Rightarrow> string" where
  "save_path_of d stn =
     (if d \<noteq> [] \<and> last d = CHR ''/'' then d else d @ ''/'') @ stn @ ''/''"

text \<open>Lines 237-243.\<close>

definition save_filename_of :: "string \<Rightarrow> string \<Rightarrow> string" where
  "save_filename_of art ttl =
     map (\<lambda>c. if c = CHR ''/'' then CHR '' '' else c) (art @ '' - '' @ ttl @ ''.aac'')"

text \<open>Lines 205-281: the recording set-up at the end of \<^verbatim>\<open>openStream\<close>.\<close>

definition openRecording :: "session \<Rightarrow> player_t \<Rightarrow> event list \<times> player_t" where
  "openRecording s p =
     (case save_dir (settings p) of
        None \<Rightarrow> ([], p\<lparr>save_file := False, ofcx := None\<rparr>)
      | Some d \<Rightarrow>
          let save_path = save_path_of d (station p);
              e1 = (if save_path \<in> existing s then [] else [Mkdir save_path]);
              save_filename = save_filename_of (artist p) (title p);
              tmp = ''/tmp/'' @ save_filename;
              complete = save_path @ save_filename;
              p1 = p\<lparr>tmp_filename := tmp, save_complete := complete\<rparr>
          in if complete \<in> existing s
             then (e1, p1\<lparr>save_file := False, ofcx := None\<rparr>)
             else (e1 @ [AvioOpen tmp, WriteHeader],
                   p1\<lparr>save_file := True,
                      ofcx := Some \<lparr>oc_path = tmp, ost_id = new_stream_id s,
                        ost_time_base = write_header s (st_time_base s)\<rparr>\<rparr>))"

definition openStream :: "session \<Rightarrow> player_t \<Rightarrow> (bool \<times> player_t) run" where
  "openStream s p =
     (if fctx p then Inl AssertFailed
      else
        let p0 = requests (open_ctl s) (p\<lparr>fctx := True, ping := now_open s\<rparr>);
            e0 = [Ping (now_open s), OpenInput (url p)] @ map Ctl (open_ctl s)
        in if open_input_ret s < 0 then Inr (e0, False, p0\<lparr>fctx := False\<rparr>)
        else
        let p1 = p0\<lparr>ping := now_info s\<rparr>;
            e1 = e0 @ [Ping (now_info s), FindStreamInfo]
        in if stream_info_ret s < 0 then Inr (e1, False, p1)
        else
        let p2 = p1\<lparr>ping := now_best s, streamIdx := best_stream s\<rparr>;
            e2 = e1 @ [Ping (now_best s), FindBestStream]
        in if best_stream s < 0 then Inr (e2, False, p2)
        else
        let p3 = p2\<lparr>st := True\<rparr>
        in if \<not> decoder_found s then Inr (e2, False, p3)
        else if codec_open_ret s < 0 then Inr (e2 @ [CodecOpen], False, p3)
        else
        let (e4, p4) =
              (if lastTimestamp p3 > 0
               then ([Ping (now_seek s), SeekFrame (streamIdx p3) (lastTimestamp p3)],
                     p3\<lparr>ping := now_seek s\<rparr>)
               else ([], p3));
            p5 = p4\<lparr>mode := PLAYER_PLAYING\<rparr>;
            (e6, p6) = openRecording s p5
        in Inr (e2 @ [CodecOpen] @ e4 @ e6, True, p6))"

subsection \<open>openFilter (lines 288-348) and openDevice (lines 352-370)\<close>

definition openFilter :: "filter_lib \<Rightarrow> player_t \<Rightarrow> bool \<times> player_t" where
  "openFilter f p =
     (if \<not> graph_alloc_ok f then (False, p\<lparr>fgraph := False\<rparr>)
      else
        let p1 = p\<lparr>fgraph := True\<rparr>
        in if abuffer_ret f < 0 then (False, p1)
        else if volume_ret f < 0 then (False, p1)
        else if aformat_ret f < 0 then (False, p1)
        else if abuffersink_ret f < 0 then (False, p1)
        else if (case link_rets f of (a, b, c) \<Rightarrow> a \<noteq> 0 \<or> b \<noteq> 0 \<or> c \<noteq> 0) then (False, p1)
        else if graph_config_ret f < 0 then (False, p1)
        else (True, p1))"

definition openDevice :: "session \<Rightarrow> player_t \<Rightarrow> event list \<times> bool \<times> player_t" where
  "openDevice s p =
     (if ao_open_ok s then ([AoOpenLive], True, p\<lparr>aoDev := True\<rparr>)
      else ([AoOpenLive], False, p\<lparr>aoDev := False\<rparr>))"

subsection \<open>play (lines 374-499)\<close>

text \<open>Lines 406-419: the copy of the packet written to the recording.\<close>

definition tee :: "session \<Rightarrow> player_t \<Rightarrow> AVPacket \<Rightarrow> event list" where
  "tee s p pkt =
     (if save_file p
      then (case ofcx p of
              None \<Rightarrow> []
            | Some oc \<Rightarrow>
                [WriteFrame (ost_id oc)
                   (rescale_q s (pts pkt) (codec_time_base s 0) (ost_time_base oc))
                   (rescale_q s (dts pkt) (codec_time_base s 0) (ost_time_base oc))])
      else [])"

text \<open>Lines 424-435: the pause gate.\<close>

fun pauseGate :: "ctl list list \<Rightarrow> player_t \<Rightarrow> player_t run" where
  "pauseGate [] p = (if \<not> doPause p then Inr ([ReadPlay], p) else Inl Blocked)"
| "pauseGate (w # ws) p =
     (if \<not> doPause p then Inr ([ReadPlay], p)
      else emit ([ReadPause, CondWait] @ map Ctl w) (pauseGate ws (requests w p)))"

text \<open>Lines 458-481: the buffers of the filter sink go to the device.\<close>

fun drain :: "audio_buf list \<Rightarrow> stop + event list" where
  "drain [] = Inr []"
| "drain (b # bs) =
     (if props_ret b < 0 then Inl AssertFailed
      else case drain bs of
             Inl x \<Rightarrow> Inl x
           | Inr es \<Rightarrow> Inr (AoPlay (nb_samples b * nb_channels b * bps b) # es))"

text \<open>Lines 448-482.\<close>

definition playFrame :: "decode_call \<Rightarrow> stop + event list" where
  "playFrame d =
     (if got_frame d
      then if src_ret d < 0 then Inl AssertFailed
           else (case drain (filtered d) of
                   Inl x \<Rightarrow> Inl x
                 | Inr es \<Rightarrow> Inr (BuffersrcWrite # es))
      else Inr [])"

text \<open>Lines 437-485: the decoder is called until the packet is used up.\<close>

fun decodeLoop :: "decode_call list \<Rightarrow> int \<Rightarrow> player_t \<Rightarrow> player_t run" where
  "decodeLoop [] sz p = Inl Blocked"
| "decodeLoop (d # ds) sz p =
     (let p1 = requests (dc_ctl d) p;
          e1 = DecodeAudio (decoded d) # map Ctl (dc_ctl d)
      in if decoded d < 0 then Inr (e1, p1)
         else case playFrame d of
                Inl x \<Rightarrow> Inl x
              | Inr e2 \<Rightarrow>
                  if sz - decoded d > 0
                  then emit (e1 @ e2) (decodeLoop ds (sz - decoded d) p1)
                  else Inr (e1 @ e2, p1))"

text \<open>Lines 390-492. \<open>QuitSeen\<close> marks the loop condition finding \<^verbatim>\<open>doQuit\<close> set.\<close>

fun playLoop :: "session \<Rightarrow> read_call list \<Rightarrow> player_t \<Rightarrow> (int \<times> player_t) run" where
  "playLoop s [] p = (if doQuit p then Inr ([QuitSeen], 0, p) else Inl Blocked)"
| "playLoop s (r # rs) p =
     (if doQuit p then Inr ([QuitSeen], 0, p)
      else
        let p1 = requests (rd_ctl r) (p\<lparr>ping := rd_now r\<rparr>);
            e1 = [Ping (rd_now r), ReadFrame (rd_ret r) (rd_pkt r)] @ map Ctl (rd_ctl r)
        in if rd_ret r < 0 then Inr (e1, rd_ret r, p1)
           else if stream_index (rd_pkt r) \<noteq> streamIdx p1 then emit e1 (playLoop s rs p1)
           else
             let p2 = p1\<lparr>pkt_write := rd_pkt r\<rparr>;
                 e2 = tee s p2 (rd_pkt r)
             in case pauseGate (rd_wakes r) p2 of
                  Inl x \<Rightarrow> Inl x
                | Inr (e3, p3) \<Rightarrow>
                    (case decodeLoop (rd_decodes r) (pkt_size (rd_pkt r)) p3 of
                       Inl x \<Rightarrow> Inl x
                     | Inr (e4, p4) \<Rightarrow>
                         emit (e1 @ e2 @ e3 @ e4)
                           (playLoop s rs (p4\<lparr>lastTimestamp := pts (rd_pkt r)\<rparr>))))"

definition play :: "session \<Rightarrow> player_t \<Rightarrow> (int \<times> player_t) run" where
  "play s p = (if \<not> frames_alloc_ok s then Inl AssertFailed else playLoop s (reads s) p)"

subsection \<open>finish (lines 501-515)\<close>

definition finish :: "session \<Rightarrow> player_t \<Rightarrow> event list \<times> player_t" where
  "finish s p =
     (let p0 = requests (close_ctl s) p;
          p1 = p0\<lparr>aoDev := False\<rparr>;
          (e2, p2) = (if fgraph p1 then ([GraphFree], p1\<lparr>fgraph := False\<rparr>) else ([], p1));
          (e3, p3) = (if st p2 then ([CodecClose], p2\<lparr>st := False\<rparr>) else ([], p2));
          (e4, p4) = (if fctx p3 then ([CloseInput], p3\<lparr>fctx := False\<rparr>) else ([], p3))
      in (map Ctl (close_ctl s) @ [AoClose] @ e2 @ e3 @ e4, p4))"

subsection \<open>BarPlayerThread (lines 521-558)\<close>

text \<open>Lines 531-543: the body of the retry loop; the first component is \<^verbatim>\<open>retry\<close>.\<close>

definition attempt :: "session \<Rightarrow> player_ret \<Rightarrow> player_t \<Rightarrow> (bool \<times> player_ret \<times> player_t) run" where
  "attempt s pret p =
     (case openStream s p of
        Inl x \<Rightarrow> Inl x
      | Inr (e1, opened, p1) \<Rightarrow>
          if opened then
            (case openFilter (filt s) p1 of
               (False, p2) \<Rightarrow>
                 (case finish s p2 of (e5, p5) \<Rightarrow> Inr (e1 @ e5, False, PLAYER_RET_HARDFAIL, p5))
             | (True, p2) \<Rightarrow>
                 (case openDevice s p2 of
                    (e3, False, p3) \<Rightarrow>
                      (case finish s p3 of (e5, p5) \<Rightarrow>
                         Inr (e1 @ e3 @ e5, False, PLAYER_RET_HARDFAIL, p5))
                  | (e3, True, p3) \<Rightarrow>
                      (case play s p3 of
                         Inl x \<Rightarrow> Inl x
                       | Inr (e4, ret, p4) \<Rightarrow>
                           (case finish s p4 of (e5, p5) \<Rightarrow>
                              Inr (e1 @ e3 @ e4 @ e5, ret = AVERROR_INVALIDDATA, pret, p5)))))
          else
            (case finish s p1 of (e5, p5) \<Rightarrow> Inr (e1 @ e5, False, PLAYER_RET_SOFTFAIL, p5)))"

text \<open>Lines 529-544: \<^verbatim>\<open>do { ... } while (retry);\<close>\<close>

fun retryLoop :: "session list \<Rightarrow> player_ret \<Rightarrow> player_t \<Rightarrow> (player_ret \<times> player_t) run" where
  "retryLoop [] pret p = Inl Blocked"
| "retryLoop (s # ss) pret p =
     (case attempt s pret p of
        Inl x \<Rightarrow> Inl x
      | Inr (es, retry, pret', p') \<Rightarrow>
          if retry then emit es (retryLoop ss pret' p') else Inr (es, pret', p'))"

text \<open>Line 554: the command handed to \<^verbatim>\<open>system\<close>.\<close>

definition mv_command :: "string \<Rightarrow> string \<Rightarrow> string" where
  "mv_command a b = ''mv '' @ [CHR 0x22] @ a @ [CHR 0x22] @ '' '' @ [CHR 0x22] @ b @ [CHR 0x22]"

text \<open>Lines 546-557.\<close>

definition finalize :: "player_t \<Rightarrow> event list" where
  "finalize p =
     (if save_file p \<and> \<not> doQuit p
      then [WriteTrailer, FreeContext, AvioClose,
            System (mv_command (tmp_filename p) (save_complete p))]
      else [])"

definition BarPlayerThread :: "session list \<Rightarrow> player_t \<Rightarrow> (player_ret \<times> player_t) run" where
  "BarPlayerThread ss p =
     (case retryLoop ss PLAYER_RET_OK p of
        Inl x \<Rightarrow> Inl x
      | Inr (es, pret, p1) \<Rightarrow>
          let p2 = p1\<lparr>mode := PLAYER_FINISHED\<rparr>
          in Inr (es @ finalize p2, pret, p2))"

section \<open>Reading a trace\<close>

definition trace_of :: "'a run \<Rightarrow> event list" where
  "trace_of r = (case r of Inl x \<Rightarrow> [] | Inr (es, a) \<Rightarrow> es)"

definition ret_code :: "(player_ret \<times> player_t) run \<Rightarrow> player_ret option" where
  "ret_code r = (case r of Inl x \<Rightarrow> None | Inr (es, pret, p) \<Rightarrow> Some pret)"

text \<open>The byte counts handed to \<^verbatim>\<open>ao_play\<close>, in order.\<close>

definition ao_bytes :: "event \<Rightarrow> int list" where
  "ao_bytes e = (case e of AoPlay n \<Rightarrow> [n] | _ \<Rightarrow> [])"

definition sink :: "event list \<Rightarrow> int list" where
  "sink es = concat (map ao_bytes es)"

text \<open>The packets handed to \<^verbatim>\<open>av_write_frame\<close>: stream index, pts, dts.\<close>

definition frame_written :: "event \<Rightarrow> (int \<times> int \<times> int) list" where
  "frame_written e = (case e of WriteFrame i a b \<Rightarrow> [(i, a, b)] | _ \<Rightarrow> [])"

definition written :: "event list \<Rightarrow> (int \<times> int \<times> int) list" where
  "written es = concat (map frame_written es)"

definition not_tee :: "event \<Rightarrow> bool" where
  "not_tee e = (case e of WriteFrame i a b \<Rightarrow> False | _ \<Rightarrow> True)"

text \<open>The packets that \<^verbatim>\<open>av_read_frame\<close> delivered on stream \<open>idx\<close>.\<close>

definition packet_read :: "int \<Rightarrow> event \<Rightarrow> AVPacket list" where
  "packet_read idx e =
     (case e of ReadFrame ret k \<Rightarrow> (if 0 \<le> ret \<and> stream_index k = idx then [k] else [])
      | _ \<Rightarrow> [])"

definition selected_reads :: "int \<Rightarrow> event list \<Rightarrow> AVPacket list" where
  "selected_reads idx es = concat (map (packet_read idx) es)"

definition is_read :: "event \<Rightarrow> bool" where
  "is_read e = (case e of ReadFrame ret k \<Rightarrow> True | _ \<Rightarrow> False)"

definition reads_done :: "event list \<Rightarrow> nat" where
  "reads_done es = length (filter is_read es)"

definition is_open :: "event \<Rightarrow> bool" where
  "is_open e = (case e of OpenInput u \<Rightarrow> True | _ \<Rightarrow> False)"

definition opens :: "event list \<Rightarrow> nat" where
  "opens es = length (filter is_open es)"

definition seek_of :: "event \<Rightarrow> (int \<times> int) list" where
  "seek_of e = (case e of SeekFrame i t \<Rightarrow> [(i, t)] | _ \<Rightarrow> [])"

definition seeks :: "event list \<Rightarrow> (int \<times> int) list" where
  "seeks es = concat (map seek_of es)"

definition mkdir_of :: "event \<Rightarrow> string list" where
  "mkdir_of e = (case e of Mkdir x \<Rightarrow> [x] | _ \<Rightarrow> [])"

definition mkdirs :: "event list \<Rightarrow> string list" where
  "mkdirs es = concat (map mkdir_of es)"

definition container_event :: "event \<Rightarrow> bool" where
  "container_event e = (case e of AvioOpen x \<Rightarrow> True | WriteHeader \<Rightarrow> True | _ \<Rightarrow> False)"

definition final_event :: "event \<Rightarrow> bool" where
  "final_event e =
     (case e of WriteTrailer \<Rightarrow> True | FreeContext \<Rightarrow> True | AvioClose \<Rightarrow> True
      | System c \<Rightarrow> True | _ \<Rightarrow> False)"

text \<open>What \<^verbatim>\<open>finish\<close> may do, and the requests that may arrive meanwhile.\<close>

definition teardown_event :: "event \<Rightarrow> bool" where
  "teardown_event e =
     (case e of Ctl c \<Rightarrow> True | AoClose \<Rightarrow> True | GraphFree \<Rightarrow> True | CodecClose \<Rightarrow> True
      | CloseInput \<Rightarrow> True | _ \<Rightarrow> False)"

definition is_decode :: "event \<Rightarrow> bool" where
  "is_decode e = (case e of DecodeAudio n \<Rightarrow> True | _ \<Rightarrow> False)"

text \<open>
  The blocking calls into the stream library (open, probe, seek, packet read), and the
  property that each of them comes directly after a \<open>Ping\<close>; \<open>b\<close> says whether the
  event before the list was one.
\<close>

definition blocking :: "event \<Rightarrow> bool" where
  "blocking e =
     (case e of OpenInput u \<Rightarrow> True | FindStreamInfo \<Rightarrow> True | SeekFrame i t \<Rightarrow> True
      | ReadFrame ret k \<Rightarrow> True | _ \<Rightarrow> False)"

definition is_ping :: "event \<Rightarrow> bool" where
  "is_ping e = (case e of Ping t \<Rightarrow> True | _ \<Rightarrow> False)"

fun guarded :: "bool \<Rightarrow> event list \<Rightarrow> bool" where
  "guarded b [] = True"
| "guarded b (e # es) = ((if blocking e then b else True) \<and> guarded (is_ping e) es)"

text \<open>The time of the last \<open>Ping\<close> of a trace, \<open>t\<close> if there is none.\<close>

fun last_ping :: "64 word \<Rightarrow> event list \<Rightarrow> 64 word" where
  "last_ping t [] = t"
| "last_ping t (e # es) = last_ping (case e of Ping t' \<Rightarrow> t' | _ \<Rightarrow> t) es"

text \<open>
  The bytes written while \<^verbatim>\<open>doPause\<close> is set: \<open>b\<close> is the flag before the trace, the
  requests in the trace change it.
\<close>

fun paused_writes :: "bool \<Rightarrow> event list \<Rightarrow> int list" where
  "paused_writes b [] = []"
| "paused_writes b (e # es) =
     (case e of
        Ctl c \<Rightarrow>
          paused_writes
            (case c of RequestPause \<Rightarrow> True | RequestResume \<Rightarrow> False | RequestQuit \<Rightarrow> b) es
      | AoPlay n \<Rightarrow> (if b then n # paused_writes b es else paused_writes b es)
      | _ \<Rightarrow> paused_writes b es)"

text \<open>
  The bytes written while the worker is held in the pause gate: from a \<open>ReadPause\<close>
  (the gate found \<^verbatim>\<open>doPause\<close> set) to the next \<open>ReadPlay\<close> (it found it clear).
\<close>

fun held_writes :: "bool \<Rightarrow> event list \<Rightarrow> int list" where
  "held_writes h [] = []"
| "held_writes h (e # es) =
     (case e of
        ReadPause \<Rightarrow> held_writes True es
      | ReadPlay \<Rightarrow> held_writes False es
      | AoPlay n \<Rightarrow> (if h then n # held_writes h es else held_writes h es)
      | _ \<Rightarrow> held_writes h es)"

text \<open>
  The audio of one packet as the decoder's answers alone give it, with no player state:
  what lines 437-485 hand to the device when nothing interferes.
\<close>

definition frame_audio :: "decode_call \<Rightarrow> int list" where
  "frame_audio d =
     (if got_frame d then map (\<lambda>b. nb_samples b * nb_channels b * bps b) (filtered d) else [])"

fun decode_audio :: "decode_call list \<Rightarrow> int \<Rightarrow> int list" where
  "decode_audio [] sz = []"
| "decode_audio (d # ds) sz =
     (if decoded d < 0 then []
      else frame_audio d @ (if sz - decoded d > 0 then decode_audio ds (sz - decoded d) else []))"

definition audio_of :: "int \<Rightarrow> read_call \<Rightarrow> int list" where
  "audio_of idx r =
     (if 0 \<le> rd_ret r \<and> stream_index (rd_pkt r) = idx
      then decode_audio (rd_decodes r) (pkt_size (rd_pkt r)) else [])"

text \<open>The timestamp a reopen resumes from: that of the last packet processed, if any.\<close>

definition resume_point :: "int \<Rightarrow> AVPacket list \<Rightarrow> int" where
  "resume_point t ks = (if ks = [] then t else pts (last ks))"

text \<open>A time base as a rational number, and the number of directory levels of a path.\<close>

definition q2rat :: "AVRational \<Rightarrow> rat" where
  "q2rat q = of_int (fst q) / of_int (snd q)"

definition depth :: "string \<Rightarrow> nat" where
  "depth x = length (filter (\<lambda>c. c = CHR ''/'') x)"

text \<open>
  A time base as the library has it: numerator and denominator are positive C \<^verbatim>\<open>int\<close>s.
\<close>

definition time_base :: "AVRational \<Rightarrow> bool" where
  "time_base q = (0 < fst q \<and> fst q < 2 ^ 31 \<and> 0 < snd q \<and> snd q < 2 ^ 31)"

text \<open>
  A timestamp that can be rescaled from \<open>bq\<close> to \<open>cq\<close>: it is a 64-bit integer other
  than \<^verbatim>\<open>AV_NOPTS_VALUE\<close> (the least one), and its value on the scale \<open>cq\<close> is within
  the 64-bit range.
\<close>

definition rescalable :: "AVRational \<Rightarrow> AVRational \<Rightarrow> int \<Rightarrow> bool" where
  "rescalable bq cq a =
     (- (2 ^ 63) < a \<and> a < 2 ^ 63
      \<and> \<bar>of_int a * q2rat bq / q2rat cq\<bar> \<le> (2 ^ 63 - 1 :: rat))"

section \<open>Notions used in the proofs\<close>

text \<open>The fields that neither a request nor the loop of \<^verbatim>\<open>play\<close> assigns.\<close>

definition static :: "player_t \<Rightarrow>
    (string \<times> string \<times> string \<times> string \<times> BarSettings_t) \<times> player_mode \<times> int \<times>
    (bool \<times> bool \<times> bool \<times> bool) \<times> bool \<times> string \<times> string \<times> out_ctx option" where
  "static p =
     ((url p, station p, artist p, title p, settings p), mode p, streamIdx p,
      (fctx p, st p, fgraph p, aoDev p), save_file p, tmp_filename p, save_complete p, ofcx p)"

text \<open>\<open>p'\<close> is \<open>p\<close> but for the two flags, and \<^verbatim>\<open>doQuit\<close> was not cleared.\<close>

definition same_but_flags :: "player_t \<Rightarrow> player_t \<Rightarrow> bool" where
  "same_but_flags p p' =
     (static p' = static p \<and> lastTimestamp p' = lastTimestamp p \<and> ping p' = ping p
      \<and> pkt_write p' = pkt_write p \<and> (if doQuit p then doQuit p' else True))"

text \<open>The same, but for the fields that the loop of \<^verbatim>\<open>play\<close> assigns as well.\<close>

definition same_but_play :: "player_t \<Rightarrow> player_t \<Rightarrow> bool" where
  "same_but_play p p' = (static p' = static p \<and> (if doQuit p then doQuit p' else True))"

text \<open>The events of the iterations of the loop of \<^verbatim>\<open>play\<close> that do not leave it.\<close>

definition play_event :: "event \<Rightarrow> bool" where
  "play_event e =
     (case e of
        Ctl c \<Rightarrow> True | Ping t \<Rightarrow> True | ReadFrame ret k \<Rightarrow> 0 \<le> ret
      | WriteFrame i a b \<Rightarrow> True | ReadPause \<Rightarrow> True | CondWait \<Rightarrow> True | ReadPlay \<Rightarrow> True
      | DecodeAudio n \<Rightarrow> True | BuffersrcWrite \<Rightarrow> True | AoPlay n \<Rightarrow> True
      | _ \<Rightarrow> False)"

text \<open>The events of \<^verbatim>\<open>openStream\<close>.\<close>

definition open_event :: "event \<Rightarrow> bool" where
  "open_event e =
     (case e of
        Ctl c \<Rightarrow> True | Ping t \<Rightarrow> True | OpenInput u \<Rightarrow> True | FindStreamInfo \<Rightarrow> True
      | FindBestStream \<Rightarrow> True | CodecOpen \<Rightarrow> True | SeekFrame i t \<Rightarrow> True | Mkdir x \<Rightarrow> True
      | AvioOpen x \<Rightarrow> True | WriteHeader \<Rightarrow> True
      | _ \<Rightarrow> False)"

text \<open>
  The events of a pass of the retry loop that is followed by another pass: the loop of
  \<^verbatim>\<open>play\<close> was not left by a quit, every failed read in it is a corrupted-data error,
  and nothing is finalized.
\<close>

definition retry_event :: "event \<Rightarrow> bool" where
  "retry_event e =
     (case e of
        QuitSeen \<Rightarrow> False | ReadFrame ret k \<Rightarrow> 0 \<le> ret \<or> ret = AVERROR_INVALIDDATA
      | WriteTrailer \<Rightarrow> False | FreeContext \<Rightarrow> False | AvioClose \<Rightarrow> False
      | System c \<Rightarrow> False
      | _ \<Rightarrow> True)"

section \<open>A sample environment\<close>

text \<open>
  A track of station Jazz, recorded below \<^verbatim>\<open>/music\<close>, the structure zeroed as a new one
  is; a stream of one track whose packets of 100 bytes decode in one call to one buffer of
  1024 stereo samples of 16 bits; a session in which every set-up call succeeds.
\<close>

definition demo_player :: player_t where
  "demo_player =
     \<lparr>url = ''http://audio/a'', station = ''Jazz'', artist = ''Ann'', title = ''Tune'',
      settings = \<lparr>save_dir = Some ''/music''\<rparr>,
      doQuit = False, doPause = False, mode = PLAYER_OPENING, lastTimestamp = 0, ping = 0,
      streamIdx = 0, fctx = False, st = False, fgraph = False, aoDev = False,
      save_file = False, tmp_filename = [], save_complete = [], ofcx = None,
      pkt_write = \<lparr>stream_index = 0, pts = 0, dts = 0, pkt_size = 0\<rparr>\<rparr>"

definition demo_filter :: filter_lib where
  "demo_filter =
     \<lparr>graph_alloc_ok = True, abuffer_ret = 0, volume_ret = 0, aformat_ret = 0,
      abuffersink_ret = 0, link_rets = (0, 0, 0), graph_config_ret = 0\<rparr>"

definition demo_buf :: audio_buf where
  "demo_buf = \<lparr>props_ret = 0, nb_samples = 1024, nb_channels = 2, bps = 2\<rparr>"

definition demo_decode :: "ctl list \<Rightarrow> int \<Rightarrow> decode_call" where
  "demo_decode cs n =
     \<lparr>dc_ctl = cs, decoded = n, got_frame = True, src_ret = 0, filtered = [demo_buf]\<rparr>"

definition demo_packet :: "int \<Rightarrow> AVPacket" where
  "demo_packet t = \<lparr>stream_index = 0, pts = t, dts = t, pkt_size = 100\<rparr>"

definition demo_read :: "int \<Rightarrow> read_call" where
  "demo_read t =
     \<lparr>rd_now = 5, rd_ctl = [], rd_ret = 0, rd_pkt = demo_packet t, rd_wakes = [],
      rd_decodes = [demo_decode [] 100]\<rparr>"

definition failed_read :: "int \<Rightarrow> read_call" where
  "failed_read e =
     \<lparr>rd_now = 6, rd_ctl = [], rd_ret = e, rd_pkt = demo_packet 0, rd_wakes = [],
      rd_decodes = []\<rparr>"

definition demo_session :: "read_call list \<Rightarrow> session" where
  "demo_session rs =
     \<lparr>open_ctl = [], now_open = 1, open_input_ret = 0, now_info = 2, stream_info_ret = 0,
      now_best = 3, best_stream = 0, decoder_found = True, codec_open_ret = 0, now_seek = 4,
      st_time_base = (1, 44100), codec_time_base = (\<lambda>i. (1, 44100)), existing = {},
      new_stream_id = 0,
      write_header = (\<lambda>q. q), rescale_q = av_rescale_q, filt = demo_filter,
      ao_open_ok = True, frames_alloc_ok = True, reads = rs, close_ctl = []\<rparr>"

text \<open>\<^verbatim>\<open>AVERROR_EOF\<close> and \<^verbatim>\<open>AVERROR(EIO)\<close>.\<close>

definition AVERROR_EOF :: int where
  "AVERROR_EOF = - 541478725"

definition AVERROR_EIO :: int where
  "AVERROR_EIO = - 5"

text \<open>
  Two packets and the end of the stream. A pause request arrives while the decoder works on
  the first packet; the second packet waits in the pause gate until a resume request
  arrives.
\<close>

definition paused_reads :: "read_call list" where
  "paused_reads =
     [(demo_read 0)\<lparr>rd_decodes := [demo_decode [RequestPause] 100]\<rparr>,
      (demo_read 1024)\<lparr>rd_wakes := [[], [RequestResume]]\<rparr>,
      failed_read AVERROR_EOF]"

text \<open>\<^verbatim>\<open>AV_NOPTS_VALUE\<close>: the timestamp of a packet that carries none.\<close>

definition AV_NOPTS_VALUE :: int where
  "AV_NOPTS_VALUE = - (2 ^ 63)"

text \<open>
  A stream whose packets carry no timestamp: one packet is played, the next read reports
  corrupted data; the stream is opened again and ends.
\<close>

definition untimed_sessions :: "session list" where
  "untimed_sessions =
     [demo_session [demo_read AV_NOPTS_VALUE, failed_read AVERROR_INVALIDDATA],
      demo_session [failed_read AVERROR_EOF]]"

text \<open>
  A stream whose codec counts in thirds of a second, recorded into a container that counts
  in halves: two packets, with timestamps 1 and 2, and the end of the stream.
\<close>

definition coarse_session :: session where
  "coarse_session =
     (demo_session [demo_read 1, demo_read 2, failed_read AVERROR_EOF])
       \<lparr>st_time_base := (1, 2), codec_time_base := (\<lambda>i. (1, 3))\<rparr>"

section \<open>Auxiliary facts\<close>

subsection \<open>Requests and results\<close>

lemma requests_eq:
  "requests cs p =
     p\<lparr>doQuit := doQuit p \<or> RequestQuit \<in> set cs,
       doPause := fold (\<lambda>c b. case c of RequestPause \<Rightarrow> True | RequestResume \<Rightarrow> False
                                | RequestQuit \<Rightarrow> b) cs (doPause p)\<rparr>"
proof (induction cs arbitrary: p)
  case Nil
  show ?case by simp
next
  case (Cons c cs)
  show ?case by (cases c) (simp_all add: Cons.IH)
qed

lemma emit_Inr: "emit es r = Inr (es', a) \<longleftrightarrow> (\<exists>es0. r = Inr (es0, a) \<and> es' = es @ es0)"
  by (cases r) auto

lemma emit_Inl: "emit es r = Inl x \<longleftrightarrow> r = Inl x"
  by (cases r) auto

lemma same_but_flags_refl: "same_but_flags p p"
  by (simp add: same_but_flags_def)

lemma same_but_flags_requests: "same_but_flags p (requests cs p)"
  by (simp add: same_but_flags_def static_def requests_eq)

lemma same_but_flags_trans:
  "same_but_flags p q \<Longrightarrow> same_but_flags q r \<Longrightarrow> same_but_flags p r"
  by (simp add: same_but_flags_def split: if_splits)

lemma same_but_play_refl: "same_but_play p p"
  by (simp add: same_but_play_def)

lemma same_but_play_trans:
  "same_but_play p q \<Longrightarrow> same_but_play q r \<Longrightarrow> same_but_play p r"
  by (simp add: same_but_play_def split: if_splits)

lemma same_but_flags_play: "same_but_flags p q \<Longrightarrow> same_but_play p q"
  by (simp add: same_but_flags_def same_but_play_def)

subsection \<open>The pause gate and the decoder loop\<close>

lemma pauseGate_flags:
  "pauseGate ws p = Inr (es, p') \<Longrightarrow> same_but_flags p p' \<and> \<not> doPause p'"
proof (induction ws arbitrary: p es)
  case Nil
  then show ?case by (auto split: if_splits simp: same_but_flags_refl)
next
  case (Cons w ws)
  show ?case
  proof (cases "doPause p")
    case False
    with Cons.prems show ?thesis by (auto simp: same_but_flags_refl)
  next
    case True
    with Cons.prems obtain es0 where "pauseGate ws (requests w p) = Inr (es0, p')"
      by (auto simp: emit_Inr)
    from Cons.IH [OF this] show ?thesis
      using same_but_flags_trans [OF same_but_flags_requests] by blast
  qed
qed

lemma pauseGate_events:
  "pauseGate ws p = Inr (es, p') \<Longrightarrow>
     \<exists>pre. es = pre @ [ReadPlay] \<and> set pre \<subseteq> range Ctl \<union> {ReadPause, CondWait}"
proof (induction ws arbitrary: p es)
  case Nil
  then show ?case by (auto split: if_splits)
next
  case (Cons w ws)
  show ?case
  proof (cases "doPause p")
    case False
    with Cons.prems show ?thesis by auto
  next
    case True
    with Cons.prems obtain es0 where a: "pauseGate ws (requests w p) = Inr (es0, p')"
      and b: "es = ([ReadPause, CondWait] @ map Ctl w) @ es0"
      by (auto simp: emit_Inr)
    from Cons.IH [OF a] obtain pre
      where "es0 = pre @ [ReadPlay]" "set pre \<subseteq> range Ctl \<union> {ReadPause, CondWait}"
      by blast
    with b show ?thesis
      by (intro exI [of _ "[ReadPause, CondWait] @ map Ctl w @ pre"]) auto
  qed
qed

lemma drain_events:
  "drain bs = Inr es \<Longrightarrow>
     es = map AoPlay (map (\<lambda>b. nb_samples b * nb_channels b * bps b) bs)"
  by (induction bs arbitrary: es) (auto split: if_splits sum.splits)

lemma playFrame_events:
  "playFrame d = Inr es \<Longrightarrow>
     set es \<subseteq> insert BuffersrcWrite (range AoPlay) \<and> sink es = frame_audio d"
  by (auto simp: playFrame_def frame_audio_def sink_def ao_bytes_def comp_def
      dest!: drain_events split: if_splits sum.splits)

lemma decodeLoop_ConsE:
  assumes "decodeLoop (d # ds) sz p = Inr (es, p')"
  obtains (err) "decoded d < 0" "es = DecodeAudio (decoded d) # map Ctl (dc_ctl d)"
      "p' = requests (dc_ctl d) p"
  | (last) e2 where "0 \<le> decoded d" "playFrame d = Inr e2" "sz - decoded d \<le> 0"
      "es = DecodeAudio (decoded d) # map Ctl (dc_ctl d) @ e2" "p' = requests (dc_ctl d) p"
  | (more) e2 es' where "0 \<le> decoded d" "playFrame d = Inr e2" "0 < sz - decoded d"
      "decodeLoop ds (sz - decoded d) (requests (dc_ctl d) p) = Inr (es', p')"
      "es = DecodeAudio (decoded d) # map Ctl (dc_ctl d) @ e2 @ es'"
  using assms
  by (auto simp: Let_def emit_Inr split: if_splits sum.splits)

lemma decodeLoop_flags: "decodeLoop ds sz p = Inr (es, p') \<Longrightarrow> same_but_flags p p'"
proof (induction ds arbitrary: sz p es)
  case Nil
  then show ?case by simp
next
  case (Cons d ds)
  from Cons.prems show ?case
  proof (cases rule: decodeLoop_ConsE)
    case more
    from Cons.IH [OF more(4)] show ?thesis
      using same_but_flags_trans [OF same_but_flags_requests] by blast
  qed (simp_all add: same_but_flags_requests)
qed

lemma decodeLoop_events:
  "decodeLoop ds sz p = Inr (es, p') \<Longrightarrow>
     set es \<subseteq> range Ctl \<union> range DecodeAudio \<union> insert BuffersrcWrite (range AoPlay)
     \<and> sink es = decode_audio ds sz"
proof (induction ds arbitrary: sz p es)
  case Nil
  then show ?case by simp
next
  case (Cons d ds)
  from Cons.prems show ?case
  proof (cases rule: decodeLoop_ConsE)
    case err
    then show ?thesis by (auto simp: sink_def ao_bytes_def)
  next
    case (last e2)
    with playFrame_events [OF last(2)] show ?thesis by (auto simp: sink_def ao_bytes_def)
  next
    case (more e2 es')
    with playFrame_events [OF more(2)] Cons.IH [OF more(4)] show ?thesis
      by (auto simp: sink_def ao_bytes_def)
  qed
qed

subsection \<open>The loop of play\<close>

lemma playLoop_NilE:
  assumes "playLoop s [] p = Inr (es, ret, p')"
  shows "doQuit p \<and> es = [QuitSeen] \<and> ret = 0 \<and> p' = p"
  using assms by (auto split: if_splits)

lemma playLoop_Cons_eq:
  "playLoop s (r # rs) p = Inr (es, ret, p') \<longleftrightarrow>
   (doQuit p \<and> es = [QuitSeen] \<and> ret = 0 \<and> p' = p)
   \<or> (\<not> doQuit p \<and> rd_ret r < 0
       \<and> es = [Ping (rd_now r), ReadFrame (rd_ret r) (rd_pkt r)] @ map Ctl (rd_ctl r)
       \<and> ret = rd_ret r \<and> p' = requests (rd_ctl r) (p\<lparr>ping := rd_now r\<rparr>))
   \<or> (\<not> doQuit p \<and> 0 \<le> rd_ret r \<and> stream_index (rd_pkt r) \<noteq> streamIdx p
       \<and> (\<exists>es'. playLoop s rs (requests (rd_ctl r) (p\<lparr>ping := rd_now r\<rparr>)) = Inr (es', ret, p')
             \<and> es = [Ping (rd_now r), ReadFrame (rd_ret r) (rd_pkt r)] @ map Ctl (rd_ctl r) @ es'))
   \<or> (\<not> doQuit p \<and> 0 \<le> rd_ret r \<and> stream_index (rd_pkt r) = streamIdx p
       \<and> (\<exists>e3 p3 e4 p4 es'.
             pauseGate (rd_wakes r)
               ((requests (rd_ctl r) (p\<lparr>ping := rd_now r\<rparr>))\<lparr>pkt_write := rd_pkt r\<rparr>) = Inr (e3, p3)
             \<and> decodeLoop (rd_decodes r) (pkt_size (rd_pkt r)) p3 = Inr (e4, p4)
             \<and> playLoop s rs (p4\<lparr>lastTimestamp := pts (rd_pkt r)\<rparr>) = Inr (es', ret, p')
             \<and> es = [Ping (rd_now r), ReadFrame (rd_ret r) (rd_pkt r)] @ map Ctl (rd_ctl r)
                  @ tee s ((requests (rd_ctl r) (p\<lparr>ping := rd_now r\<rparr>))\<lparr>pkt_write := rd_pkt r\<rparr>)
                      (rd_pkt r)
                  @ e3 @ e4 @ es'))"
proof -
  have idx: "streamIdx (requests (rd_ctl r) (p\<lparr>ping := rd_now r\<rparr>)) = streamIdx p"
    by (simp add: requests_eq)
  show ?thesis
  proof (cases "doQuit p")
    case True then show ?thesis by auto
  next
    case nq: False
    show ?thesis
    proof (cases "rd_ret r < 0")
      case True with nq show ?thesis by (auto simp: Let_def)
    next
      case ok: False
      show ?thesis
      proof (cases "stream_index (rd_pkt r) = streamIdx p")
        case False with nq ok idx show ?thesis
          by (auto simp add: Let_def emit_Inr)
      next
        case True
        with nq ok idx show ?thesis
          by (auto simp add: Let_def emit_Inr split: sum.splits prod.splits)
      qed
    qed
  qed
qed

lemma playLoop_ConsE:
  assumes "playLoop s (r # rs) p = Inr (es, ret, p')"
  obtains (quit) "doQuit p" "es = [QuitSeen]" "ret = 0" "p' = p"
  | (err) "\<not> doQuit p" "rd_ret r < 0"
      "es = [Ping (rd_now r), ReadFrame (rd_ret r) (rd_pkt r)] @ map Ctl (rd_ctl r)"
      "ret = rd_ret r" "p' = requests (rd_ctl r) (p\<lparr>ping := rd_now r\<rparr>)"
  | (skip) es' where "\<not> doQuit p" "0 \<le> rd_ret r" "stream_index (rd_pkt r) \<noteq> streamIdx p"
      "playLoop s rs (requests (rd_ctl r) (p\<lparr>ping := rd_now r\<rparr>)) = Inr (es', ret, p')"
      "es = [Ping (rd_now r), ReadFrame (rd_ret r) (rd_pkt r)] @ map Ctl (rd_ctl r) @ es'"
  | (proc) e3 p3 e4 p4 es' where "\<not> doQuit p" "0 \<le> rd_ret r"
      "stream_index (rd_pkt r) = streamIdx p"
      "pauseGate (rd_wakes r)
         ((requests (rd_ctl r) (p\<lparr>ping := rd_now r\<rparr>))\<lparr>pkt_write := rd_pkt r\<rparr>) = Inr (e3, p3)"
      "decodeLoop (rd_decodes r) (pkt_size (rd_pkt r)) p3 = Inr (e4, p4)"
      "playLoop s rs (p4\<lparr>lastTimestamp := pts (rd_pkt r)\<rparr>) = Inr (es', ret, p')"
      "es = [Ping (rd_now r), ReadFrame (rd_ret r) (rd_pkt r)] @ map Ctl (rd_ctl r)
            @ tee s ((requests (rd_ctl r) (p\<lparr>ping := rd_now r\<rparr>))\<lparr>pkt_write := rd_pkt r\<rparr>)
                (rd_pkt r)
            @ e3 @ e4 @ es'"
  using assms unfolding playLoop_Cons_eq by blast

lemma playLoop_frame: "playLoop s rs p = Inr (es, ret, p') \<Longrightarrow> same_but_play p p'"
proof (induction rs arbitrary: p es)
  case Nil
  from playLoop_NilE [OF Nil] show ?case by (simp add: same_but_play_refl)
next
  case (Cons r rs)
  let ?p1 = "requests (rd_ctl r) (p\<lparr>ping := rd_now r\<rparr>)"
  have p1: "same_but_play p ?p1"
    by (simp add: same_but_play_def static_def requests_eq)
  from Cons.prems show ?case
  proof (cases rule: playLoop_ConsE)
    case quit then show ?thesis by (simp add: same_but_play_refl)
  next
    case err with p1 show ?thesis by simp
  next
    case (skip es')
    from Cons.IH [OF skip(4)] p1 show ?thesis by (rule same_but_play_trans [rotated])
  next
    case (proc e3 p3 e4 p4 es')
    have "same_but_play p (?p1\<lparr>pkt_write := rd_pkt r\<rparr>)"
      by (simp add: same_but_play_def static_def requests_eq)
    moreover have "same_but_play (?p1\<lparr>pkt_write := rd_pkt r\<rparr>) p3"
      using pauseGate_flags [OF proc(4)] by (simp add: same_but_flags_play)
    moreover have "same_but_play p3 p4"
      using decodeLoop_flags [OF proc(5)] by (simp add: same_but_flags_play)
    moreover have "same_but_play p4 (p4\<lparr>lastTimestamp := pts (rd_pkt r)\<rparr>)"
      by (simp add: same_but_play_def static_def)
    moreover note Cons.IH [OF proc(6)]
    ultimately show ?thesis by (blast intro: same_but_play_trans)
  qed
qed

subsection \<open>Traces\<close>

lemma concat_map_Nil_set: "\<forall>e\<in>set es. f e = [] \<Longrightarrow> concat (map f es) = []"
  by (induction es) simp_all

lemma sink_simps:
  "sink [] = []" "sink (e # es) = ao_bytes e @ sink es" "sink (xs @ ys) = sink xs @ sink ys"
  by (simp_all add: sink_def)

lemma written_simps:
  "written [] = []" "written (e # es) = frame_written e @ written es"
  "written (xs @ ys) = written xs @ written ys"
  by (simp_all add: written_def)

lemma selected_reads_simps:
  "selected_reads idx [] = []"
  "selected_reads idx (e # es) = packet_read idx e @ selected_reads idx es"
  "selected_reads idx (xs @ ys) = selected_reads idx xs @ selected_reads idx ys"
  by (simp_all add: selected_reads_def)

lemma seeks_simps:
  "seeks [] = []" "seeks (e # es) = seek_of e @ seeks es" "seeks (xs @ ys) = seeks xs @ seeks ys"
  by (simp_all add: seeks_def)

lemma mkdirs_simps:
  "mkdirs [] = []" "mkdirs (e # es) = mkdir_of e @ mkdirs es"
  "mkdirs (xs @ ys) = mkdirs xs @ mkdirs ys"
  by (simp_all add: mkdirs_def)

lemma reads_done_simps:
  "reads_done [] = 0" "reads_done (e # es) = (if is_read e then 1 else 0) + reads_done es"
  "reads_done (xs @ ys) = reads_done xs + reads_done ys"
  by (simp_all add: reads_done_def)

lemma opens_simps:
  "opens [] = 0" "opens (e # es) = (if is_open e then 1 else 0) + opens es"
  "opens (xs @ ys) = opens xs + opens ys"
  by (simp_all add: opens_def)

lemma sink_quiet: "\<forall>e\<in>set es. ao_bytes e = [] \<Longrightarrow> sink es = []"
  unfolding sink_def by (rule concat_map_Nil_set)

lemma written_quiet: "\<forall>e\<in>set es. frame_written e = [] \<Longrightarrow> written es = []"
  unfolding written_def by (rule concat_map_Nil_set)

lemma selected_reads_quiet: "\<forall>e\<in>set es. packet_read idx e = [] \<Longrightarrow> selected_reads idx es = []"
  unfolding selected_reads_def by (rule concat_map_Nil_set)

lemma seeks_quiet: "\<forall>e\<in>set es. seek_of e = [] \<Longrightarrow> seeks es = []"
  unfolding seeks_def by (rule concat_map_Nil_set)

lemma mkdirs_quiet: "\<forall>e\<in>set es. mkdir_of e = [] \<Longrightarrow> mkdirs es = []"
  unfolding mkdirs_def by (rule concat_map_Nil_set)

lemma reads_done_quiet: "\<forall>e\<in>set es. \<not> is_read e \<Longrightarrow> reads_done es = 0"
  by (simp add: reads_done_def)

lemma opens_quiet: "\<forall>e\<in>set es. \<not> is_open e \<Longrightarrow> opens es = 0"
  by (simp add: opens_def)

subsection \<open>The body of an iteration\<close>

lemma tee_recording:
  "save_file q \<Longrightarrow> ofcx q = Some oc \<Longrightarrow>
     tee s q k = [WriteFrame (ost_id oc)
                    (rescale_q s (pts k) (codec_time_base s 0) (ost_time_base oc))
                    (rescale_q s (dts k) (codec_time_base s 0) (ost_time_base oc))]"
  unfolding tee_def by simp

lemma tee_off: "\<not> save_file q \<Longrightarrow> tee s q k = []"
  unfolding tee_def by simp

lemma tee_none: "ofcx q = None \<Longrightarrow> tee s q k = []"
  unfolding tee_def by simp

lemma tee_events: "set (tee s q k) \<subseteq> {e. \<exists>i a b. e = WriteFrame i a b}"
proof (cases "ofcx q")
  case None
  then show ?thesis by (simp add: tee_none)
next
  case (Some oc)
  then show ?thesis by (cases "save_file q") (simp_all add: tee_recording tee_off)
qed

lemma body_alphabet:
  assumes g: "pauseGate ws q = Inr (e3, p3)" and d: "decodeLoop ds sz p3 = Inr (e4, p4)"
  shows "set (map Ctl cs @ tee s q k @ e3 @ e4) \<subseteq>
     range Ctl \<union> {e. \<exists>i a b. e = WriteFrame i a b} \<union> {ReadPause, CondWait, ReadPlay}
     \<union> range DecodeAudio \<union> insert BuffersrcWrite (range AoPlay)"
proof -
  from pauseGate_events [OF g] obtain pre where
    "e3 = pre @ [ReadPlay]" "set pre \<subseteq> range Ctl \<union> {ReadPause, CondWait}" by blast
  moreover from decodeLoop_events [OF d] have
    "set e4 \<subseteq> range Ctl \<union> range DecodeAudio \<union> insert BuffersrcWrite (range AoPlay)" by blast
  moreover note tee_events [of s q k]
  ultimately show ?thesis by auto
qed

lemma body_quiet:
  assumes g: "pauseGate ws q = Inr (e3, p3)" and d: "decodeLoop ds sz p3 = Inr (e4, p4)"
    and e: "e \<in> set (map Ctl cs @ tee s q k @ e3 @ e4)"
  shows "play_event e" "\<not> blocking e" "\<not> is_ping e" "\<not> is_read e" "packet_read idx e = []"
    "seek_of e = []" "\<not> is_open e" "e \<noteq> QuitSeen" "\<not> final_event e" "mkdir_of e = []"
    "\<not> container_event e"
  using body_alphabet [OF g d, of cs s k] e
  by (auto simp: play_event_def blocking_def is_ping_def is_read_def packet_read_def seek_of_def
      is_open_def final_event_def mkdir_of_def container_event_def)

lemma body_sink:
  assumes g: "pauseGate ws q = Inr (e3, p3)" and d: "decodeLoop ds sz p3 = Inr (e4, p4)"
  shows "sink (map Ctl cs @ tee s q k @ e3 @ e4) = decode_audio ds sz"
proof -
  from pauseGate_events [OF g] obtain pre where
    e3: "e3 = pre @ [ReadPlay]" and pre: "set pre \<subseteq> range Ctl \<union> {ReadPause, CondWait}" by blast
  have "sink pre = []"
    by (rule sink_quiet) (use pre in \<open>auto simp: ao_bytes_def\<close>)
  moreover have "sink (tee s q k) = []"
    by (rule sink_quiet) (use tee_events [of s q k] in \<open>auto simp: ao_bytes_def\<close>)
  moreover have "sink (map Ctl cs) = []"
    by (rule sink_quiet) (auto simp: ao_bytes_def)
  moreover from decodeLoop_events [OF d] have "sink e4 = decode_audio ds sz" by blast
  ultimately show ?thesis using e3 by (simp add: sink_simps ao_bytes_def)
qed

lemma body_written:
  assumes g: "pauseGate ws q = Inr (e3, p3)" and d: "decodeLoop ds sz p3 = Inr (e4, p4)"
  shows "written (map Ctl cs @ tee s q k @ e3 @ e4) = written (tee s q k)"
proof -
  from pauseGate_events [OF g] obtain pre where
    e3: "e3 = pre @ [ReadPlay]" and pre: "set pre \<subseteq> range Ctl \<union> {ReadPause, CondWait}" by blast
  have "written pre = []"
    by (rule written_quiet) (use pre in \<open>auto simp: frame_written_def\<close>)
  moreover have "written (map Ctl cs) = []"
    by (rule written_quiet) (auto simp: frame_written_def)
  moreover have "written e4 = []"
    by (rule written_quiet) (use decodeLoop_events [OF d] in \<open>auto simp: frame_written_def\<close>)
  ultimately show ?thesis using e3 by (simp add: written_simps frame_written_def)
qed

subsection \<open>What a run of the loop looks like\<close>

lemma playLoop_shape:
  "playLoop s rs p = Inr (es, ret, p') \<Longrightarrow>
     \<exists>pre. (\<forall>e\<in>set pre. play_event e) \<and>
       ((ret = 0 \<and> es = pre @ [QuitSeen] \<and> doQuit p')
        \<or> (ret < 0 \<and> (\<exists>t k cs. es = pre @ Ping t # ReadFrame ret k # map Ctl cs)))"
proof (induction rs arbitrary: p es)
  case Nil
  from playLoop_NilE [OF Nil] show ?case by (intro exI [of _ "[]"]) simp
next
  case (Cons r rs)
  from Cons.prems show ?case
  proof (cases rule: playLoop_ConsE)
    case quit
    then show ?thesis by (intro exI [of _ "[]"]) simp
  next
    case err
    then show ?thesis by (intro exI [of _ "[]"]) auto
  next
    case (skip es')
    from Cons.IH [OF skip(4)] obtain pre where pre: "\<forall>e\<in>set pre. play_event e"
      "(ret = 0 \<and> es' = pre @ [QuitSeen] \<and> doQuit p')
        \<or> (ret < 0 \<and> (\<exists>t k cs. es' = pre @ Ping t # ReadFrame ret k # map Ctl cs))" by blast
    let ?hd = "[Ping (rd_now r), ReadFrame (rd_ret r) (rd_pkt r)] @ map Ctl (rd_ctl r)"
    have "\<forall>e\<in>set (?hd @ pre). play_event e"
      using pre(1) skip(2) by (auto simp: play_event_def)
    moreover have "(ret = 0 \<and> es = (?hd @ pre) @ [QuitSeen] \<and> doQuit p')
        \<or> (ret < 0 \<and> (\<exists>t k cs. es = (?hd @ pre) @ Ping t # ReadFrame ret k # map Ctl cs))"
      using pre(2) skip(5) by auto
    ultimately show ?thesis by blast
  next
    case (proc e3 p3 e4 p4 es')
    from Cons.IH [OF proc(6)] obtain pre where pre: "\<forall>e\<in>set pre. play_event e"
      "(ret = 0 \<and> es' = pre @ [QuitSeen] \<and> doQuit p')
        \<or> (ret < 0 \<and> (\<exists>t k cs. es' = pre @ Ping t # ReadFrame ret k # map Ctl cs))" by blast
    let ?q = "(requests (rd_ctl r) (p\<lparr>ping := rd_now r\<rparr>))\<lparr>pkt_write := rd_pkt r\<rparr>"
    let ?body = "map Ctl (rd_ctl r) @ tee s ?q (rd_pkt r) @ e3 @ e4"
    let ?hd = "[Ping (rd_now r), ReadFrame (rd_ret r) (rd_pkt r)] @ ?body"
    have "\<forall>e\<in>set ?body. play_event e"
      using body_quiet(1) [OF proc(4) proc(5)] by blast
    then have "\<forall>e\<in>set (?hd @ pre). play_event e"
      using pre(1) proc(2) by (auto simp: play_event_def)
    moreover have "(ret = 0 \<and> es = (?hd @ pre) @ [QuitSeen] \<and> doQuit p')
        \<or> (ret < 0 \<and> (\<exists>t k cs. es = (?hd @ pre) @ Ping t # ReadFrame ret k # map Ctl cs))"
      using pre(2) proc(7) by auto
    ultimately show ?thesis by blast
  qed
qed

subsection \<open>Pings\<close>

lemma guarded_mono: "guarded False es \<Longrightarrow> guarded b es"
  by (cases es) (auto split: if_splits)

lemma guarded_quiet: "\<forall>e\<in>set es. \<not> blocking e \<Longrightarrow> guarded b es"
  by (induction es arbitrary: b) simp_all

lemma guarded_append: "guarded b xs \<Longrightarrow> guarded False ys \<Longrightarrow> guarded b (xs @ ys)"
  by (induction xs arbitrary: b) (simp_all add: guarded_mono)

lemma last_ping_append: "last_ping t (xs @ ys) = last_ping (last_ping t xs) ys"
  by (induction xs arbitrary: t) simp_all

lemma last_ping_quiet: "\<forall>e\<in>set es. \<not> is_ping e \<Longrightarrow> last_ping t es = t"
  by (induction es arbitrary: t) (auto simp: is_ping_def split: event.splits)

lemma playLoop_pings:
  "playLoop s rs p = Inr (es, ret, p') \<Longrightarrow> guarded False es \<and> ping p' = last_ping (ping p) es"
proof (induction rs arbitrary: p es)
  case Nil
  from playLoop_NilE [OF Nil] show ?case by (simp add: blocking_def)
next
  case (Cons r rs)
  have ctl: "\<forall>e\<in>set (map Ctl (rd_ctl r)). \<not> blocking e \<and> \<not> is_ping e"
    by (auto simp: blocking_def is_ping_def)
  from Cons.prems show ?case
  proof (cases rule: playLoop_ConsE)
    case quit
    then show ?thesis by (simp add: blocking_def)
  next
    case err
    with ctl show ?thesis
      by (simp add: blocking_def is_ping_def guarded_quiet last_ping_quiet requests_eq)
  next
    case (skip es')
    from Cons.IH [OF skip(4)] have ih: "guarded False es'"
      "ping p' = last_ping (rd_now r) es'" by (simp_all add: requests_eq)
    from ctl have "guarded False (map Ctl (rd_ctl r))"
      by (intro guarded_quiet) simp
    with ih(1) have "guarded False (map Ctl (rd_ctl r) @ es')"
      by (rule guarded_append [rotated])
    with ih(2) skip(5) ctl show ?thesis
      by (simp add: blocking_def is_ping_def last_ping_append last_ping_quiet)
  next
    case (proc e3 p3 e4 p4 es')
    let ?q = "(requests (rd_ctl r) (p\<lparr>ping := rd_now r\<rparr>))\<lparr>pkt_write := rd_pkt r\<rparr>"
    let ?body = "map Ctl (rd_ctl r) @ tee s ?q (rd_pkt r) @ e3 @ e4"
    have "same_but_flags ?q p4"
      using pauseGate_flags [OF proc(4)] decodeLoop_flags [OF proc(5)]
      by (blast intro: same_but_flags_trans)
    then have "ping p4 = rd_now r" by (simp add: same_but_flags_def requests_eq)
    with Cons.IH [OF proc(6)] have ih: "guarded False es'"
      "ping p' = last_ping (rd_now r) es'" by simp_all
    have q: "\<forall>e\<in>set ?body. \<not> blocking e" "\<forall>e\<in>set ?body. \<not> is_ping e"
      using body_quiet(2,3) [OF proc(4) proc(5)] by blast+
    from q(1) have "guarded False ?body"
      by (rule guarded_quiet)
    with ih(1) have "guarded False (?body @ es')"
      by (rule guarded_append [rotated])
    moreover have "last_ping (rd_now r) (?body @ es') = last_ping (rd_now r) es'"
      by (subst last_ping_append) (simp only: last_ping_quiet [OF q(2)])
    moreover have "es = Ping (rd_now r) # ReadFrame (rd_ret r) (rd_pkt r) # ?body @ es'"
      using proc(7) by simp
    ultimately show ?thesis using ih(2)
      by (simp add: blocking_def is_ping_def del: append_assoc)
  qed
qed

subsection \<open>openStream, finish and one pass of the retry loop\<close>

lemma openRecording_events:
  "openRecording s p = (es, p') \<Longrightarrow>
     set es \<subseteq> range Mkdir \<union> insert WriteHeader (range AvioOpen)"
  by (auto simp: openRecording_def Let_def split: option.splits if_splits)

lemma openRecording_frame:
  "openRecording s p = (es, p') \<Longrightarrow>
     p' = p\<lparr>save_file := save_file p', ofcx := ofcx p', tmp_filename := tmp_filename p',
            save_complete := save_complete p'\<rparr>"
  by (auto simp: openRecording_def Let_def split: option.splits if_splits)

lemma openRecording_quiet:
  assumes "openRecording s q = (e6, p6)"
  shows "\<forall>e\<in>set e6. open_event e" "opens e6 = 0" "guarded b e6" "last_ping t e6 = t"
    "seeks e6 = []"
proof -
  from openRecording_events [OF assms]
  have *: "\<forall>e\<in>set e6. open_event e \<and> \<not> is_open e \<and> \<not> blocking e \<and> \<not> is_ping e
            \<and> seek_of e = []"
    by (auto simp: open_event_def is_open_def blocking_def is_ping_def seek_of_def)
  then show "\<forall>e\<in>set e6. open_event e" "opens e6 = 0" "guarded b e6" "last_ping t e6 = t"
    "seeks e6 = []"
    by (simp_all add: opens_quiet guarded_quiet last_ping_quiet seeks_quiet)
qed

lemma ctl_quiet:
  "\<forall>e\<in>set (map Ctl cs). open_event e" "opens (map Ctl cs) = 0" "guarded b (map Ctl cs)"
  "last_ping t (map Ctl cs) = t" "seeks (map Ctl cs) = []"
proof -
  have *: "\<forall>e\<in>set (map Ctl cs). open_event e \<and> \<not> is_open e \<and> \<not> blocking e \<and> \<not> is_ping e
            \<and> seek_of e = []"
    by (auto simp: open_event_def is_open_def blocking_def is_ping_def seek_of_def)
  then show "\<forall>e\<in>set (map Ctl cs). open_event e" "opens (map Ctl cs) = 0"
    "guarded b (map Ctl cs)" "last_ping t (map Ctl cs) = t" "seeks (map Ctl cs) = []"
    by (simp_all add: opens_quiet guarded_quiet last_ping_quiet seeks_quiet del: set_map)
qed

lemma openStream_failE:
  assumes "openStream s p = Inr (es, False, p')"
  obtains rest where "\<not> fctx p"
    "es = [Ping (now_open s), OpenInput (url p)] @ map Ctl (open_ctl s) @ rest"
    "rest = [] \<or> rest = [Ping (now_info s), FindStreamInfo]
     \<or> rest = [Ping (now_info s), FindStreamInfo, Ping (now_best s), FindBestStream]
     \<or> rest = [Ping (now_info s), FindStreamInfo, Ping (now_best s), FindBestStream, CodecOpen]"
    "ping p' = last_ping (now_open s) rest"
    "static p' = static ((requests (open_ctl s) p)\<lparr>streamIdx := streamIdx p', st := st p',
       fctx := fctx p'\<rparr>)"
    "lastTimestamp p' = lastTimestamp p"
    "doQuit p' = (doQuit p \<or> RequestQuit \<in> set (open_ctl s))"
proof -
  from assms have nf: "\<not> fctx p" by (auto simp: openStream_def split: if_splits)
  consider (a) "open_input_ret s < 0"
    | (b) "0 \<le> open_input_ret s" "stream_info_ret s < 0"
    | (c) "0 \<le> open_input_ret s" "0 \<le> stream_info_ret s" "best_stream s < 0"
    | (d) "0 \<le> open_input_ret s" "0 \<le> stream_info_ret s" "0 \<le> best_stream s"
        "\<not> decoder_found s"
    | (e) "0 \<le> open_input_ret s" "0 \<le> stream_info_ret s" "0 \<le> best_stream s"
        "decoder_found s" "codec_open_ret s < 0"
    | (f) "0 \<le> open_input_ret s" "0 \<le> stream_info_ret s" "0 \<le> best_stream s"
        "decoder_found s" "0 \<le> codec_open_ret s"
    by linarith
  then show ?thesis
  proof cases
    case a
    with assms nf show ?thesis
      by (intro that [of "[]"]) (auto simp: openStream_def Let_def requests_eq static_def)
  next
    case b
    with assms nf show ?thesis
      by (intro that [of "[Ping (now_info s), FindStreamInfo]"])
        (auto simp: openStream_def Let_def requests_eq static_def)
  next
    case c
    with assms nf show ?thesis
      by (intro that [of "[Ping (now_info s), FindStreamInfo, Ping (now_best s), FindBestStream]"])
        (auto simp: openStream_def Let_def requests_eq static_def)
  next
    case d
    with assms nf show ?thesis
      by (intro that [of "[Ping (now_info s), FindStreamInfo, Ping (now_best s), FindBestStream]"])
        (auto simp: openStream_def Let_def requests_eq static_def)
  next
    case e
    with assms nf show ?thesis
      by (intro that [of "[Ping (now_info s), FindStreamInfo, Ping (now_best s), FindBestStream,
            CodecOpen]"])
        (auto simp: openStream_def Let_def requests_eq static_def)
  next
    case f
    with assms nf show ?thesis
      by (auto simp: openStream_def Let_def split: prod.splits)
  qed
qed

lemma openStream_ok:
  assumes "openStream s p = Inr (es, True, p')"
  shows "\<exists>e6 q. openRecording s q = (e6, p')
     \<and> es = [Ping (now_open s), OpenInput (url p)] @ map Ctl (open_ctl s)
          @ [Ping (now_info s), FindStreamInfo, Ping (now_best s), FindBestStream, CodecOpen]
          @ (if 0 < lastTimestamp p
             then [Ping (now_seek s), SeekFrame (best_stream s) (lastTimestamp p)] else [])
          @ e6
     \<and> \<not> fctx p \<and> 0 \<le> best_stream s
     \<and> static q = static ((requests (open_ctl s) p)\<lparr>fctx := True, st := True,
          streamIdx := best_stream s, mode := PLAYER_PLAYING, save_file := save_file q\<rparr>)
     \<and> ping q = (if 0 < lastTimestamp p then now_seek s else now_best s)
     \<and> lastTimestamp q = lastTimestamp p \<and> pkt_write q = pkt_write p
     \<and> doQuit q = (doQuit p \<or> RequestQuit \<in> set (open_ctl s))"
proof -
  from assms have nf: "\<not> fctx p" by (auto simp: openStream_def split: if_splits)
  from assms nf have ok: "0 \<le> open_input_ret s" "0 \<le> stream_info_ret s" "0 \<le> best_stream s"
    "decoder_found s" "0 \<le> codec_open_ret s"
    by (auto simp: openStream_def Let_def split: if_splits)
  show ?thesis
  proof (cases "0 < lastTimestamp p")
    case True
    with assms nf ok show ?thesis
      by (simp add: openStream_def Let_def requests_eq split: prod.splits)
        (rule exI, rule exI, rule conjI, assumption, simp add: static_def)
  next
    case False
    with assms nf ok show ?thesis
      by (simp add: openStream_def Let_def requests_eq split: prod.splits)
        (rule exI, rule exI, rule conjI, assumption, simp add: static_def)
  qed
qed

lemma finish_facts:
  assumes "finish s p = (es, p')"
  shows "es = map Ctl (close_ctl s) @ [AoClose] @ (if fgraph p then [GraphFree] else [])
            @ (if st p then [CodecClose] else []) @ (if fctx p then [CloseInput] else [])"
    and "static p' = static (p\<lparr>aoDev := False, fgraph := False, st := False, fctx := False\<rparr>)"
    and "lastTimestamp p' = lastTimestamp p" and "ping p' = ping p"
    and "pkt_write p' = pkt_write p"
    and "doQuit p' = (doQuit p \<or> RequestQuit \<in> set (close_ctl s))"
  using assms
  by (auto simp: finish_def Let_def requests_eq static_def split: if_splits)

lemma openFilter_facts:
  assumes "openFilter f p = (ok, p')"
  shows "p' = p\<lparr>fgraph := fgraph p'\<rparr>" and "ok \<Longrightarrow> fgraph p'"
  using assms
  by (auto simp: openFilter_def Let_def split: if_splits)

lemma openDevice_facts:
  assumes "openDevice s p = (es, ok, p')"
  shows "p' = p\<lparr>aoDev := ok\<rparr>" and "es = [AoOpenLive]"
  using assms
  by (auto simp: openDevice_def split: if_splits)

lemma attempt_E:
  assumes "attempt s pret p = Inr (es, retry, pret', p')"
  obtains (soft) e1 p1 e5 where "openStream s p = Inr (e1, False, p1)" "finish s p1 = (e5, p')"
      "es = e1 @ e5" "\<not> retry" "pret' = PLAYER_RET_SOFTFAIL"
  | (hard_filter) e1 p1 p2 e5 where "openStream s p = Inr (e1, True, p1)"
      "openFilter (filt s) p1 = (False, p2)" "finish s p2 = (e5, p')"
      "es = e1 @ e5" "\<not> retry" "pret' = PLAYER_RET_HARDFAIL"
  | (hard_device) e1 p1 p2 e3 p3 e5 where "openStream s p = Inr (e1, True, p1)"
      "openFilter (filt s) p1 = (True, p2)" "openDevice s p2 = (e3, False, p3)"
      "finish s p3 = (e5, p')" "es = e1 @ e3 @ e5" "\<not> retry" "pret' = PLAYER_RET_HARDFAIL"
  | (played) e1 p1 p2 e3 p3 e4 ret p4 e5 where "openStream s p = Inr (e1, True, p1)"
      "openFilter (filt s) p1 = (True, p2)" "openDevice s p2 = (e3, True, p3)"
      "play s p3 = Inr (e4, ret, p4)" "finish s p4 = (e5, p')" "es = e1 @ e3 @ e4 @ e5"
      "retry = (ret = AVERROR_INVALIDDATA)" "pret' = pret"
  using assms unfolding attempt_def
  by (auto split: sum.splits prod.splits if_splits bool.splits)

subsection \<open>Pings in the whole thread\<close>

lemma openRecording_fields:
  assumes "openRecording s p = (es, p')"
  shows "url p' = url p" "station p' = station p" "artist p' = artist p" "title p' = title p"
    "settings p' = settings p" "doQuit p' = doQuit p" "doPause p' = doPause p"
    "mode p' = mode p" "lastTimestamp p' = lastTimestamp p" "ping p' = ping p"
    "streamIdx p' = streamIdx p" "fctx p' = fctx p" "st p' = st p" "fgraph p' = fgraph p"
    "aoDev p' = aoDev p" "pkt_write p' = pkt_write p"
  using assms
  by (auto simp: openRecording_def Let_def split: option.splits if_splits)

lemma openStream_pings:
  assumes "openStream s p = Inr (es, ok, p')"
  shows "guarded False es \<and> ping p' = last_ping (ping p) es"
proof (cases ok)
  case False
  with assms have "openStream s p = Inr (es, False, p')" by simp
  then show ?thesis
  proof (cases rule: openStream_failE)
    case (1 rest)
    have g: "guarded False rest" using 1(3) by (auto simp: blocking_def is_ping_def)
    have "guarded False (map Ctl (open_ctl s) @ rest)"
      by (rule guarded_append [OF ctl_quiet(3) g])
    moreover have "last_ping (now_open s) (map Ctl (open_ctl s) @ rest) = last_ping (now_open s) rest"
      by (simp add: last_ping_append ctl_quiet(4))
    ultimately show ?thesis using 1(2,4)
      by (simp add: blocking_def is_ping_def del: append_assoc)
  qed
next
  case True
  with assms have "openStream s p = Inr (es, True, p')" by simp
  from openStream_ok [OF this] obtain e6 q where r: "openRecording s q = (e6, p')"
    and es: "es = [Ping (now_open s), OpenInput (url p)] @ map Ctl (open_ctl s)
          @ [Ping (now_info s), FindStreamInfo, Ping (now_best s), FindBestStream, CodecOpen]
          @ (if 0 < lastTimestamp p
             then [Ping (now_seek s), SeekFrame (best_stream s) (lastTimestamp p)] else [])
          @ e6"
    and q: "ping q = (if 0 < lastTimestamp p then now_seek s else now_best s)"
    by blast
  let ?mid = "[Ping (now_info s), FindStreamInfo, Ping (now_best s), FindBestStream, CodecOpen]
          @ (if 0 < lastTimestamp p
             then [Ping (now_seek s), SeekFrame (best_stream s) (lastTimestamp p)] else [])"
  have p': "ping p' = ping q" by (rule openRecording_fields(10) [OF r])
  have "guarded False ?mid" by (simp add: blocking_def is_ping_def)
  then have "guarded False (?mid @ e6)"
    by (rule guarded_append) (rule openRecording_quiet(3) [OF r])
  then have "guarded False (map Ctl (open_ctl s) @ ?mid @ e6)"
    by (rule guarded_append [OF ctl_quiet(3)])
  moreover have "last_ping (now_open s) (map Ctl (open_ctl s) @ ?mid @ e6) = ping q"
    using q by (simp add: last_ping_append ctl_quiet(4) openRecording_quiet(4) [OF r])
  ultimately show ?thesis using es p'
    by (simp add: blocking_def is_ping_def del: append_assoc)
qed


lemma finish_quiet:
  assumes "finish s p = (es, p')"
  shows "\<forall>e\<in>set es. teardown_event e"
  using finish_facts(1) [OF assms]
  by (auto simp: teardown_event_def)

lemma teardown_quiet:
  assumes "teardown_event e"
  shows "\<not> blocking e" "\<not> is_ping e" "\<not> is_read e" "\<not> is_open e" "ao_bytes e = []"
    "frame_written e = []" "packet_read idx e = []" "seek_of e = []" "\<not> final_event e"
    "e \<noteq> QuitSeen" "\<not> is_decode e" "\<not> container_event e"
  using assms
  by (cases e; simp add: teardown_event_def blocking_def is_ping_def is_read_def is_open_def
      ao_bytes_def frame_written_def packet_read_def seek_of_def final_event_def is_decode_def
      container_event_def)+

lemma attempt_pings:
  assumes "attempt s pret p = Inr (es, retry, pret', p')"
  shows "guarded False es \<and> ping p' = last_ping (ping p) es"
proof -
  have fin: "\<And>q e5 q'. finish s q = (e5, q') \<Longrightarrow>
      guarded False e5 \<and> (\<forall>t. last_ping t e5 = t) \<and> ping q' = ping q"
    using finish_quiet teardown_quiet(1,2) finish_facts(4)
    by (metis guarded_quiet last_ping_quiet)
  from assms show ?thesis
  proof (cases rule: attempt_E)
    case (soft e1 p1 e5)
    with openStream_pings [OF soft(1)] fin [OF soft(2)] show ?thesis
      by (simp add: guarded_append last_ping_append)
  next
    case (hard_filter e1 p1 p2 e5)
    have "ping p2 = ping p1" using openFilter_facts(1) [OF hard_filter(2)]
      by (metis player_t.select_convs(10) player_t.surjective player_t.update_convs(14))
    with hard_filter openStream_pings [OF hard_filter(1)] fin [OF hard_filter(3)] show ?thesis
      by (simp add: guarded_append last_ping_append)
  next
    case (hard_device e1 p1 p2 e3 p3 e5)
    have "ping p2 = ping p1" using openFilter_facts(1) [OF hard_device(2)]
      by (metis player_t.select_convs(10) player_t.surjective player_t.update_convs(14))
    moreover have "ping p3 = ping p2" "e3 = [AoOpenLive]"
      using openDevice_facts [OF hard_device(3)] by simp_all
    ultimately show ?thesis
      using hard_device openStream_pings [OF hard_device(1)] fin [OF hard_device(4)]
      by (simp add: guarded_append last_ping_append blocking_def is_ping_def)
  next
    case (played e1 p1 p2 e3 p3 e4 ret p4 e5)
    have "ping p2 = ping p1" using openFilter_facts(1) [OF played(2)]
      by (metis player_t.select_convs(10) player_t.surjective player_t.update_convs(14))
    moreover have "ping p3 = ping p2" "e3 = [AoOpenLive]"
      using openDevice_facts [OF played(3)] by simp_all
    moreover from played(4) have "playLoop s (reads s) p3 = Inr (e4, ret, p4)"
      by (simp add: play_def split: if_splits)
    note playLoop_pings [OF this]
    ultimately show ?thesis
      using played openStream_pings [OF played(1)] fin [OF played(5)]
      by (simp add: guarded_append last_ping_append blocking_def is_ping_def)
  qed
qed

lemma retryLoop_pings:
  "retryLoop ss pret p = Inr (es, pret', p') \<Longrightarrow>
     guarded False es \<and> ping p' = last_ping (ping p) es"
proof (induction ss arbitrary: pret p es)
  case Nil
  then show ?case by simp
next
  case (Cons s ss)
  from Cons.prems obtain e1 retry pret1 p1 where a: "attempt s pret p = Inr (e1, retry, pret1, p1)"
    and b: "if retry then emit e1 (retryLoop ss pret1 p1) = Inr (es, pret', p')
            else (e1, pret1, p1) = (es, pret', p')"
    by (auto split: sum.splits if_splits)
  show ?case
  proof (cases retry)
    case False
    with a b attempt_pings [OF a] show ?thesis by simp
  next
    case True
    with b obtain e2 where c: "retryLoop ss pret1 p1 = Inr (e2, pret', p')" "es = e1 @ e2"
      by (auto simp: emit_Inr)
    from Cons.IH [OF c(1)] attempt_pings [OF a] c(2) show ?thesis
      by (simp add: guarded_append last_ping_append)
  qed
qed

lemma BarPlayerThread_E:
  assumes "BarPlayerThread ss p = Inr (es, pret, p')"
  obtains e1 p1 where "retryLoop ss PLAYER_RET_OK p = Inr (e1, pret, p1)"
    "p' = p1\<lparr>mode := PLAYER_FINISHED\<rparr>" "es = e1 @ finalize p'"
  using assms unfolding BarPlayerThread_def
  by (auto simp: Let_def split: sum.splits)

lemma finalize_quiet:
  "\<forall>e\<in>set (finalize p). \<not> blocking e \<and> \<not> is_ping e \<and> \<not> is_read e \<and> \<not> is_open e
      \<and> ao_bytes e = [] \<and> e \<noteq> QuitSeen \<and> \<not> teardown_event e \<and> final_event e"
  by (auto simp: finalize_def blocking_def is_ping_def is_read_def is_open_def ao_bytes_def
      teardown_event_def final_event_def)

lemma BarPlayerThread_pings:
  assumes "BarPlayerThread ss p = Inr (es, pret, p')"
  shows "guarded False es \<and> ping p' = last_ping (ping p) es"
  using assms
proof (cases rule: BarPlayerThread_E)
  case (1 e1 p1)
  from finalize_quiet [of p'] have "guarded False (finalize p')" "last_ping (ping p1) (finalize p') = ping p1"
    by (simp_all add: guarded_quiet last_ping_quiet)
  with retryLoop_pings [OF 1(1)] 1(2,3) show ?thesis
    by (simp add: guarded_append last_ping_append)
qed

subsection \<open>The watchdog predicate\<close>

lemma intCb_iff:
  assumes "0 \<le> sint now" "0 \<le> sint (ping p)"
  shows "intCb now p \<longleftrightarrow> 10000000 < sint now - sint (ping p)"
proof -
  have a: "sint now < 2 ^ 63" using sint_lt [of now] by simp
  have b: "sint (ping p) < 2 ^ 63" using sint_lt [of "ping p"] by simp
  have "sint (now - ping p) = sint now - sint (ping p)"
    unfolding sint_word_diff using assms a b
    by (simp add: signed_take_bit_int_eq_self)
  then show ?thesis
    by (simp add: intCb_def word_sless_alt)
qed

lemmas demo_defs = demo_player_def demo_filter_def demo_buf_def demo_decode_def demo_packet_def
  demo_read_def failed_read_def demo_session_def AVERROR_EOF_def AVERROR_EIO_def
  AVERROR_INVALIDDATA_def

lemmas run_defs = BarPlayerThread_def attempt_def openStream_def openRecording_def
  openFilter_def openDevice_def play_def finish_def finalize_def tee_def playFrame_def
  save_path_of_def save_filename_of_def mv_command_def av_rescale_q_def Let_def

section \<open>The claims\<close>

text \<open>
  C8. The stall predicate of the watchdog, \<^verbatim>\<open>intCb\<close>, is true exactly when more than
  10 seconds (10000000 microseconds) have passed since the time stored by the last
  \<^verbatim>\<open>ping\<close>, for times that are not negative (microseconds since the epoch, where the
  64-bit subtraction cannot wrap). And a ping is recorded directly before every blocking
  call into the stream library: in the trace of \<^verbatim>\<open>openStream\<close>, of the loop of
  \<^verbatim>\<open>play\<close> and of the whole thread, every open, probe, seek and packet read comes
  directly after a \<open>Ping\<close>, and the field \<^verbatim>\<open>ping\<close> holds the time of the last one.
\<close>

theorem watchdog_stalled_and_pinged:
  "(0 \<le> sint now \<and> 0 \<le> sint (ping p0) \<longrightarrow>
      (intCb now p0 \<longleftrightarrow> 10000000 < sint now - sint (ping p0)))
   \<and> (openStream s p1 = Inr (es1, ok, p1') \<longrightarrow>
        guarded False es1 \<and> ping p1' = last_ping (ping p1) es1)
   \<and> (playLoop s rs p2 = Inr (es2, ret, p2') \<longrightarrow>
        guarded False es2 \<and> ping p2' = last_ping (ping p2) es2)
   \<and> (BarPlayerThread ss p3 = Inr (es3, pret, p3') \<longrightarrow>
        guarded False es3 \<and> ping p3' = last_ping (ping p3) es3)"
  using intCb_iff openStream_pings playLoop_pings BarPlayerThread_pings by blast

theorem watchdog_stalled_and_pinged_witness:
  "0 \<le> sint (20000000 :: 64 word) \<and> 0 \<le> sint (ping (demo_player\<lparr>ping := 5\<rparr>))
   \<and> intCb 20000000 (demo_player\<lparr>ping := 5\<rparr>)
   \<and> \<not> intCb 10000005 (demo_player\<lparr>ping := 5\<rparr>)
   \<and> guarded False
        (trace_of (BarPlayerThread [demo_session [demo_read 0, failed_read AVERROR_EOF]]
           demo_player))
   \<and> reads_done
        (trace_of (BarPlayerThread [demo_session [demo_read 0, failed_read AVERROR_EOF]]
           demo_player)) = 2"
proof -
  let ?p = "demo_player\<lparr>ping := 5\<rparr>"
  let ?run = "BarPlayerThread [demo_session [demo_read 0, failed_read AVERROR_EOF]] demo_player"
  have h: "0 \<le> sint (20000000 :: 64 word)" "0 \<le> sint (10000005 :: 64 word)"
    "0 \<le> sint (ping ?p)"
    by (simp_all add: demo_defs)
  obtain es pret p' where run: "?run = Inr (es, pret, p')"
    by (simp add: demo_defs run_defs)
  have "reads_done es = 2"
    using run by (auto simp add: demo_defs run_defs reads_done_def is_read_def)
  moreover have "intCb 20000000 ?p" "\<not> intCb 10000005 ?p"
    using watchdog_stalled_and_pinged [of 20000000 ?p] watchdog_stalled_and_pinged [of 10000005 ?p] h
    by (simp_all add: demo_defs)
  moreover have "guarded False es"
    using watchdog_stalled_and_pinged [of _ _ _ _ _ _ _ _ _ _ _ _ "[demo_session [demo_read 0, failed_read AVERROR_EOF]]" demo_player es pret p'] run
    by blast
  ultimately show ?thesis using h run by (simp add: trace_of_def)
qed

subsection \<open>The recording set-up\<close>

lemma save_filename_no_slash: "CHR ''/'' \<notin> set (save_filename_of a t)"
proof
  assume "CHR ''/'' \<in> set (save_filename_of a t)"
  then obtain c where "CHR ''/'' = (if c = CHR ''/'' then CHR '' '' else c)"
    unfolding save_filename_of_def set_map by (rule imageE)
  then show False by (simp split: if_splits)
qed

lemma depth_append: "depth (x @ y) = depth x + depth y"
  by (simp add: depth_def)

lemma depth_no_slash: "CHR ''/'' \<notin> set x \<Longrightarrow> depth x = 0"
  unfolding depth_def by (induction x) auto

lemma openRecording_Some:
  assumes d: "save_dir (settings q) = Some d" and r: "openRecording s q = (e6, p')"
  shows "save_complete p' = save_path_of d (station q) @ save_filename_of (artist q) (title q)"
    and "tmp_filename p' = ''/tmp/'' @ save_filename_of (artist q) (title q)"
    and "mkdirs e6 = (if save_path_of d (station q) \<in> existing s then []
                      else [save_path_of d (station q)])"
    and "save_file p' \<longleftrightarrow> save_complete p' \<notin> existing s"
    and "save_file p' \<Longrightarrow> e6 = (if save_path_of d (station q) \<in> existing s then []
                      else [Mkdir (save_path_of d (station q))]) @ [AvioOpen (tmp_filename p'), WriteHeader]"
    and "save_file p' \<Longrightarrow> ofcx p' = Some \<lparr>oc_path = tmp_filename p', ost_id = new_stream_id s,
                        ost_time_base = write_header s (st_time_base s)\<rparr>"
    and "\<not> save_file p' \<Longrightarrow> \<forall>e\<in>set e6. \<not> container_event e"
proof -
  let ?path = "save_path_of d (station q)"
  let ?name = "save_filename_of (artist q) (title q)"
  let ?mk = "if ?path \<in> existing s then [] else [Mkdir ?path]"
  let ?q1 = "q\<lparr>tmp_filename := ''/tmp/'' @ ?name, save_complete := ?path @ ?name\<rparr>"
  have eq: "(e6, p') =
     (if ?path @ ?name \<in> existing s then (?mk, ?q1\<lparr>save_file := False, ofcx := None\<rparr>)
      else (?mk @ [AvioOpen (''/tmp/'' @ ?name), WriteHeader],
            ?q1\<lparr>save_file := True,
               ofcx := Some \<lparr>oc_path = ''/tmp/'' @ ?name, ost_id = new_stream_id s,
                        ost_time_base = write_header s (st_time_base s)\<rparr>\<rparr>))"
    using r unfolding openRecording_def d by (simp only: option.case Let_def)
  have mk: "mkdirs ?mk = (if ?path \<in> existing s then [] else [?path])"
    "\<forall>e\<in>set ?mk. \<not> container_event e"
    by (simp_all add: mkdirs_simps mkdir_of_def container_event_def)
  show "save_complete p' = ?path @ ?name" "tmp_filename p' = ''/tmp/'' @ ?name"
    "save_file p' \<longleftrightarrow> save_complete p' \<notin> existing s"
    using eq by (simp_all split: if_splits)
  show "mkdirs e6 = (if ?path \<in> existing s then [] else [?path])"
  proof (cases "?path @ ?name \<in> existing s")
    case True
    with eq have "e6 = ?mk" by simp
    with mk(1) show ?thesis by simp
  next
    case False
    with eq have "e6 = ?mk @ [AvioOpen (''/tmp/'' @ ?name), WriteHeader]" by simp
    with mk(1) show ?thesis by (simp add: mkdirs_simps mkdir_of_def)
  qed
  show "e6 = ?mk @ [AvioOpen (tmp_filename p'), WriteHeader]" if "save_file p'"
    using eq that by (simp split: if_splits)
  show "ofcx p' = Some \<lparr>oc_path = tmp_filename p', ost_id = new_stream_id s,
                        ost_time_base = write_header s (st_time_base s)\<rparr>" if "save_file p'"
    using eq that by (simp split: if_splits)
  show "\<forall>e\<in>set e6. \<not> container_event e" if "\<not> save_file p'"
  proof -
    from eq that have "e6 = ?mk" by (simp split: if_splits)
    with mk(2) show ?thesis by simp
  qed
qed

lemma openRecording_None:
  assumes "save_dir (settings q) = None" and "openRecording s q = (e6, p')"
  shows "\<not> save_file p'" and "e6 = []"
  using assms by (auto simp: openRecording_def)

lemma openStream_ok_recording:
  assumes "openStream s p = Inr (es, True, p')"
  obtains e6 q pre where "openRecording s q = (e6, p')" "es = pre @ e6"
    "station q = station p" "artist q = artist p" "title q = title p" "settings q = settings p"
    "\<forall>e\<in>set pre. mkdir_of e = [] \<and> \<not> container_event e"
proof -
  from openStream_ok [OF assms] obtain e6 q where r: "openRecording s q = (e6, p')"
    and es: "es = ([Ping (now_open s), OpenInput (url p)] @ map Ctl (open_ctl s)
          @ [Ping (now_info s), FindStreamInfo, Ping (now_best s), FindBestStream, CodecOpen]
          @ (if 0 < lastTimestamp p
             then [Ping (now_seek s), SeekFrame (best_stream s) (lastTimestamp p)] else []))
          @ e6"
    and q: "static q = static ((requests (open_ctl s) p)\<lparr>fctx := True, st := True,
          streamIdx := best_stream s, mode := PLAYER_PLAYING, save_file := save_file q\<rparr>)"
    by auto
  from q have "station q = station p" "artist q = artist p" "title q = title p"
    "settings q = settings p"
    by (simp_all add: static_def requests_eq)
  with r es show ?thesis
    by (rule that) (auto simp: mkdir_of_def container_event_def)
qed

text \<open>
  C9. Only the file name made of artist and title has its path separators replaced by
  spaces; the station name goes into the directory path as it is. So the final path has
  one directory level more for every path separator in the station name, and the code
  makes one \<^verbatim>\<open>mkdir\<close> call, for the whole directory path (none if it exists): the levels
  above the last are not created.
\<close>

theorem station_name_not_sanitised:
  "save_dir (settings p) = Some d \<and> openStream s p = Inr (es, True, p') \<longrightarrow>
     save_complete p' =
       (if d \<noteq> [] \<and> last d = CHR ''/'' then d else d @ ''/'') @ station p @ ''/''
       @ save_filename_of (artist p) (title p)
     \<and> tmp_filename p' = ''/tmp/'' @ save_filename_of (artist p) (title p)
     \<and> save_filename_of (artist p) (title p) =
         map (\<lambda>c. if c = CHR ''/'' then CHR '' '' else c) (artist p) @ '' - ''
         @ map (\<lambda>c. if c = CHR ''/'' then CHR '' '' else c) (title p) @ ''.aac''
     \<and> CHR ''/'' \<notin> set (save_filename_of (artist p) (title p))
     \<and> depth (save_complete p') =
         depth (if d \<noteq> [] \<and> last d = CHR ''/'' then d else d @ ''/'') + depth (station p) + 1
     \<and> mkdirs es =
         (if save_path_of d (station p) \<in> existing s then [] else [save_path_of d (station p)])"
proof (intro impI, elim conjE)
  assume d: "save_dir (settings p) = Some d" and o: "openStream s p = Inr (es, True, p')"
  from o obtain e6 q pre where r: "openRecording s q = (e6, p')" and es: "es = pre @ e6"
    and q: "station q = station p" "artist q = artist p" "title q = title p"
      "settings q = settings p"
    and pre: "\<forall>e\<in>set pre. mkdir_of e = [] \<and> \<not> container_event e"
    by (rule openStream_ok_recording)
  from d q have dq: "save_dir (settings q) = Some d" by simp
  let ?dir = "if d \<noteq> [] \<and> last d = CHR ''/'' then d else d @ ''/''"
  let ?name = "save_filename_of (artist p) (title p)"
  have path: "save_path_of d (station p) = ?dir @ station p @ ''/''"
    by (simp add: save_path_of_def)
  have c: "save_complete p' = ?dir @ station p @ ''/'' @ ?name"
    using openRecording_Some(1) [OF dq r] q path by simp
  have t: "tmp_filename p' = ''/tmp/'' @ ?name"
    using openRecording_Some(2) [OF dq r] q by simp
  have n: "?name = map (\<lambda>c. if c = CHR ''/'' then CHR '' '' else c) (artist p) @ '' - ''
         @ map (\<lambda>c. if c = CHR ''/'' then CHR '' '' else c) (title p) @ ''.aac''"
    by (simp add: save_filename_of_def)
  have "filter (\<lambda>c. c = CHR ''/'') ?name = []"
    using depth_no_slash [OF save_filename_no_slash, of "artist p" "title p"]
    by (simp add: depth_def)
  then have dp: "depth (save_complete p') = depth ?dir + depth (station p) + 1"
    unfolding c depth_def by simp
  have "mkdirs pre = []" using pre by (simp add: mkdirs_quiet)
  then have m: "mkdirs es = (if save_path_of d (station p) \<in> existing s then []
      else [save_path_of d (station p)])"
    using openRecording_Some(3) [OF dq r] q es by (simp add: mkdirs_simps)
  from c t n save_filename_no_slash dp m
  show "save_complete p' = ?dir @ station p @ ''/'' @ ?name
     \<and> tmp_filename p' = ''/tmp/'' @ ?name
     \<and> ?name = map (\<lambda>c. if c = CHR ''/'' then CHR '' '' else c) (artist p) @ '' - ''
         @ map (\<lambda>c. if c = CHR ''/'' then CHR '' '' else c) (title p) @ ''.aac''
     \<and> CHR ''/'' \<notin> set ?name
     \<and> depth (save_complete p') = depth ?dir + depth (station p) + 1
     \<and> mkdirs es = (if save_path_of d (station p) \<in> existing s then []
          else [save_path_of d (station p)])"
    by blast
qed


theorem station_name_not_sanitised_witness:
  "save_dir (settings (demo_player\<lparr>station := ''Rock/Pop'', title := ''A/B''\<rparr>)) = Some ''/music''
   \<and> (\<exists>es p'. openStream (demo_session []) (demo_player\<lparr>station := ''Rock/Pop'', title := ''A/B''\<rparr>)
          = Inr (es, True, p')
        \<and> save_complete p' = ''/music/Rock/Pop/Ann - A B.aac''
        \<and> depth (save_complete p') = 4
        \<and> mkdirs es = [''/music/Rock/Pop/''])"
proof -
  let ?p = "demo_player\<lparr>station := ''Rock/Pop'', title := ''A/B''\<rparr>"
  have d: "save_dir (settings ?p) = Some ''/music''" by (simp add: demo_defs)
  obtain es p' where o: "openStream (demo_session []) ?p = Inr (es, True, p')"
    by (simp add: demo_defs openStream_def openRecording_def Let_def)
  have x: "station ?p = ''Rock/Pop''" "artist ?p = ''Ann''" "title ?p = ''A/B''"
    "existing (demo_session []) = {}"
    by (simp_all add: demo_defs)
  from station_name_not_sanitised [of ?p "''/music''" "demo_session []" es p'] d o
  have "save_complete p' = ''/music/Rock/Pop/Ann - A B.aac''"
    "depth (save_complete p') = 4" "mkdirs es = [''/music/Rock/Pop/'']"
    unfolding x by (simp_all add: save_filename_of_def save_path_of_def depth_def)
  with d o show ?thesis by blast
qed

subsection \<open>The recording does not touch the playback\<close>

lemma requests_save_file:
  "requests cs (p\<lparr>save_file := b\<rparr>) = (requests cs p)\<lparr>save_file := b\<rparr>"
  by (simp add: requests_eq)

lemma pauseGate_save_file:
  "pauseGate ws (p\<lparr>save_file := b\<rparr>) =
     (case pauseGate ws p of Inl x \<Rightarrow> Inl x | Inr (es, p') \<Rightarrow> Inr (es, p'\<lparr>save_file := b\<rparr>))"
proof (induction ws arbitrary: p)
  case Nil
  show ?case by simp
next
  case (Cons w ws)
  show ?case
    by (cases "pauseGate ws (requests w p)")
      (auto simp: requests_save_file Cons.IH)
qed

lemma decodeLoop_save_file:
  "decodeLoop ds sz (p\<lparr>save_file := b\<rparr>) =
     (case decodeLoop ds sz p of Inl x \<Rightarrow> Inl x | Inr (es, p') \<Rightarrow> Inr (es, p'\<lparr>save_file := b\<rparr>))"
proof (induction ds arbitrary: sz p)
  case Nil
  show ?case by simp
next
  case (Cons d ds)
  show ?case
    by (cases "decodeLoop ds (sz - decoded d) (requests (dc_ctl d) p)")
      (auto simp: requests_save_file Cons.IH Let_def split: sum.splits)
qed

lemma filter_not_tee_body:
  assumes g: "pauseGate ws q = Inr (e3, p3)" and d: "decodeLoop ds sz p3 = Inr (e4, p4)"
  shows "filter not_tee e3 = e3" "filter not_tee e4 = e4" "filter not_tee (tee s q k) = []"
proof -
  from pauseGate_events [OF g] have "\<forall>e\<in>set e3. not_tee e" by (fastforce simp: not_tee_def)
  then show "filter not_tee e3 = e3" by simp
  from decodeLoop_events [OF d] have "\<forall>e\<in>set e4. not_tee e"
    by (fastforce simp: not_tee_def)
  then show "filter not_tee e4 = e4" by simp
  from tee_events [of s q k] have "\<forall>e\<in>set (tee s q k). \<not> not_tee e"
    by (auto simp: not_tee_def)
  then show "filter not_tee (tee s q k) = []" by simp
qed

lemma filter_not_tee_ctl: "filter not_tee (map Ctl cs) = map Ctl cs"
  by (induction cs) (simp_all add: not_tee_def)

lemma playLoop_save_file_off:
  "playLoop s rs (p\<lparr>save_file := False\<rparr>) =
     (case playLoop s rs p of
        Inl x \<Rightarrow> Inl x
      | Inr (es, ret, p') \<Rightarrow> Inr (filter not_tee es, ret, p'\<lparr>save_file := False\<rparr>))"
proof (induction rs arbitrary: p)
  case Nil
  show ?case by (simp add: not_tee_def)
next
  case (Cons r rs)
  let ?p1 = "requests (rd_ctl r) (p\<lparr>ping := rd_now r\<rparr>)"
  let ?q = "?p1\<lparr>pkt_write := rd_pkt r\<rparr>"
  let ?hd = "[Ping (rd_now r), ReadFrame (rd_ret r) (rd_pkt r)]"
  have hd: "not_tee (Ping (rd_now r))" "not_tee (ReadFrame (rd_ret r) (rd_pkt r))"
    by (simp_all add: not_tee_def)
  note hd = hd filter_not_tee_ctl
  have idx: "streamIdx ?p1 = streamIdx p" by (simp add: requests_eq)
  have comm: "requests (rd_ctl r) (p\<lparr>save_file := False, ping := rd_now r\<rparr>)
      = ?p1\<lparr>save_file := False\<rparr>"
    "?p1\<lparr>save_file := False, pkt_write := rd_pkt r\<rparr> = ?q\<lparr>save_file := False\<rparr>"
    by (simp_all add: requests_eq)
  show ?case
  proof (cases "doQuit p")
    case True
    then show ?thesis by (simp add: not_tee_def)
  next
    case nq: False
    show ?thesis
    proof (cases "rd_ret r < 0")
      case True
      with nq show ?thesis by (simp add: Let_def comm hd)
    next
      case ok: False
      show ?thesis
      proof (cases "stream_index (rd_pkt r) = streamIdx p")
        case False
        with nq ok idx show ?thesis
          by (cases "playLoop s rs ?p1") (auto simp: Let_def comm Cons.IH hd)
      next
        case True
        show ?thesis
        proof (cases "pauseGate (rd_wakes r) ?q")
          case (Inl x)
          with nq ok idx True show ?thesis
            by (simp add: Let_def comm pauseGate_save_file)
        next
          case (Inr a)
          then obtain e3 p3 where g: "pauseGate (rd_wakes r) ?q = Inr (e3, p3)"
            by (cases a) auto
          show ?thesis
          proof (cases "decodeLoop (rd_decodes r) (pkt_size (rd_pkt r)) p3")
            case (Inl x)
            with nq ok idx True g show ?thesis
              by (simp add: Let_def comm pauseGate_save_file decodeLoop_save_file)
          next
            case (Inr b)
            then obtain e4 p4
              where d: "decodeLoop (rd_decodes r) (pkt_size (rd_pkt r)) p3 = Inr (e4, p4)"
              by (cases b) auto
            have off: "tee s (?q\<lparr>save_file := False\<rparr>) (rd_pkt r) = []"
              by (simp add: tee_off)
            have upd: "p4\<lparr>save_file := False, lastTimestamp := pts (rd_pkt r)\<rparr>
                = p4\<lparr>lastTimestamp := pts (rd_pkt r), save_file := False\<rparr>"
              by simp
            note body = filter_not_tee_body [OF g d]
            have lhs: "playLoop s (r # rs) (p\<lparr>save_file := False\<rparr>) =
                emit (?hd @ map Ctl (rd_ctl r) @ e3 @ e4)
                  (playLoop s rs (p4\<lparr>lastTimestamp := pts (rd_pkt r), save_file := False\<rparr>))"
              using nq ok idx True g d off
              by (simp add: Let_def comm pauseGate_save_file decodeLoop_save_file upd)
            have rhs: "playLoop s (r # rs) p =
                emit (?hd @ map Ctl (rd_ctl r) @ tee s ?q (rd_pkt r) @ e3 @ e4)
                  (playLoop s rs (p4\<lparr>lastTimestamp := pts (rd_pkt r)\<rparr>))"
              using nq ok idx True g d by (simp add: Let_def)
            show ?thesis unfolding lhs rhs Cons.IH
              by (cases "playLoop s rs (p4\<lparr>lastTimestamp := pts (rd_pkt r)\<rparr>)")
                (auto simp: hd body)
          qed
        qed
      qed
    qed
  qed
qed

text \<open>
  C7. Whether the track is recorded is decided in \<^verbatim>\<open>openStream\<close> and nowhere else: after
  an open that succeeds \<^verbatim>\<open>save_file\<close> is set exactly when a save directory is configured
  and no file exists at the final path; an open that fails, \<^verbatim>\<open>openFilter\<close>,
  \<^verbatim>\<open>openDevice\<close>, the loop of \<^verbatim>\<open>play\<close> and \<^verbatim>\<open>finish\<close> leave the flag as it is. When
  the flag ends up clear (so when the target file exists) the open creates no temporary
  file and no output container, and the loop of \<^verbatim>\<open>play\<close> runs as it does with recording
  on, but for the packets written to the recording: same result, same events otherwise.
\<close>

theorem recording_decided_at_open:
  "(openStream s p = Inr (es, True, p') \<longrightarrow>
      (save_file p' \<longleftrightarrow>
         (\<exists>d. save_dir (settings p) = Some d
            \<and> save_path_of d (station p) @ save_filename_of (artist p) (title p) \<notin> existing s))
      \<and> (\<not> save_file p' \<longrightarrow> (\<forall>e\<in>set es. \<not> container_event e)))
   \<and> (openStream s pa = Inr (ea, False, pa') \<longrightarrow> save_file pa' = save_file pa)
   \<and> (openFilter f pb = (okb, pb') \<longrightarrow> save_file pb' = save_file pb)
   \<and> (openDevice s pc = (ec, okc, pc') \<longrightarrow> save_file pc' = save_file pc)
   \<and> (playLoop s rs pd = Inr (ed, ret, pd') \<longrightarrow> save_file pd' = save_file pd)
   \<and> (finish s pe = (ee, pe') \<longrightarrow> save_file pe' = save_file pe)
   \<and> playLoop s rs (pn\<lparr>save_file := False\<rparr>) =
       (case playLoop s rs pn of
          Inl x \<Rightarrow> Inl x
        | Inr (en, retn, pn') \<Rightarrow> Inr (filter not_tee en, retn, pn'\<lparr>save_file := False\<rparr>))"
proof -
  have a: "(save_file p' \<longleftrightarrow>
         (\<exists>d. save_dir (settings p) = Some d
            \<and> save_path_of d (station p) @ save_filename_of (artist p) (title p) \<notin> existing s))
      \<and> (\<not> save_file p' \<longrightarrow> (\<forall>e\<in>set es. \<not> container_event e))"
    if o: "openStream s p = Inr (es, True, p')"
  proof -
    from o obtain e6 q pre where r: "openRecording s q = (e6, p')" and es: "es = pre @ e6"
      and q: "station q = station p" "artist q = artist p" "title q = title p"
        "settings q = settings p"
      and pre: "\<forall>e\<in>set pre. mkdir_of e = [] \<and> \<not> container_event e"
      by (rule openStream_ok_recording)
    show ?thesis
    proof (cases "save_dir (settings p)")
      case None
      with q have "save_dir (settings q) = None" by simp
      from openRecording_None [OF this r] None es pre show ?thesis by simp
    next
      case (Some d)
      with q have dq: "save_dir (settings q) = Some d" by simp
      from openRecording_Some(1,4,7) [OF dq r] Some q es pre show ?thesis by auto
    qed
  qed
  have b: "save_file pa' = save_file pa" if "openStream s pa = Inr (ea, False, pa')"
    using that by (cases rule: openStream_failE) (simp add: static_def requests_eq)
  have c: "save_file pb' = save_file pb" if "openFilter f pb = (okb, pb')"
    using openFilter_facts(1) [OF that]
    by (metis player_t.select_convs(16) player_t.surjective player_t.update_convs(14))
  have d: "save_file pc' = save_file pc" if "openDevice s pc = (ec, okc, pc')"
    using openDevice_facts(1) [OF that] by simp
  have e: "save_file pd' = save_file pd" if "playLoop s rs pd = Inr (ed, ret, pd')"
    using playLoop_frame [OF that] by (simp add: same_but_play_def static_def)
  have f: "save_file pe' = save_file pe" if "finish s pe = (ee, pe')"
    using finish_facts(2) [OF that] by (simp add: static_def)
  from a b c d e f playLoop_save_file_off [of s rs pn] show ?thesis by blast
qed

theorem recording_decided_at_open_witness:
  "(\<exists>es p'. openStream (demo_session [demo_read 0]\<lparr>existing := {''/music/Jazz/Ann - Tune.aac''}\<rparr>)
        demo_player = Inr (es, True, p')
      \<and> \<not> save_file p' \<and> filter container_event es = [])
   \<and> (\<exists>es p'. openStream (demo_session [demo_read 0]) demo_player = Inr (es, True, p')
      \<and> save_file p')
   \<and> playLoop (demo_session []) [demo_read 0, failed_read AVERROR_EOF]
        (demo_player\<lparr>save_file := False\<rparr>)
      = Inr ([Ping 5, ReadFrame 0 (demo_packet 0), ReadPlay, DecodeAudio 100, BuffersrcWrite,
              AoPlay 4096, Ping 6, ReadFrame AVERROR_EOF (demo_packet 0)],
             AVERROR_EOF,
             demo_player\<lparr>ping := 6, pkt_write := demo_packet 0, save_file := False\<rparr>)"
proof -
  let ?s = "demo_session [demo_read 0]\<lparr>existing := {''/music/Jazz/Ann - Tune.aac''}\<rparr>"
  let ?t = "demo_session [demo_read 0]"
  obtain es p' where o: "openStream ?s demo_player = Inr (es, True, p')"
    by (simp add: demo_defs run_defs)
  obtain es2 p2' where o2: "openStream ?t demo_player = Inr (es2, True, p2')"
    by (simp add: demo_defs run_defs)
  have x: "save_dir (settings demo_player) = Some ''/music''"
    "save_path_of ''/music'' (station demo_player)
       @ save_filename_of (artist demo_player) (title demo_player) = ''/music/Jazz/Ann - Tune.aac''"
    "existing ?s = {''/music/Jazz/Ann - Tune.aac''}" "existing ?t = {}"
    by (simp_all add: demo_defs save_path_of_def save_filename_of_def)
  note claim = recording_decided_at_open
  from claim [of ?s demo_player es p'] o x have "\<not> save_file p'"
    "\<forall>e\<in>set es. \<not> container_event e" by auto
  then have 1: "\<not> save_file p' \<and> filter container_event es = []" by simp
  from claim [of ?t demo_player es2 p2'] o2 x have 2: "save_file p2'" by auto
  have run: "playLoop (demo_session []) [demo_read 0, failed_read AVERROR_EOF] demo_player
      = Inr ([Ping 5, ReadFrame 0 (demo_packet 0), ReadPlay, DecodeAudio 100, BuffersrcWrite,
              AoPlay 4096, Ping 6, ReadFrame AVERROR_EOF (demo_packet 0)],
             AVERROR_EOF, demo_player\<lparr>ping := 6, pkt_write := demo_packet 0\<rparr>)"
    by (simp add: demo_defs tee_def playFrame_def Let_def)
  have 3: "playLoop (demo_session []) [demo_read 0, failed_read AVERROR_EOF]
        (demo_player\<lparr>save_file := False\<rparr>)
      = Inr ([Ping 5, ReadFrame 0 (demo_packet 0), ReadPlay, DecodeAudio 100, BuffersrcWrite,
              AoPlay 4096, Ping 6, ReadFrame AVERROR_EOF (demo_packet 0)],
             AVERROR_EOF,
             demo_player\<lparr>ping := 6, pkt_write := demo_packet 0, save_file := False\<rparr>)"
    using claim [where s = "demo_session []" and rs = "[demo_read 0, failed_read AVERROR_EOF]"
        and pn = demo_player]
    unfolding run by (simp add: not_tee_def)
  from 1 2 3 o o2 show ?thesis by blast
qed

subsection \<open>Quit requests and the resume point\<close>

lemma quit_ctl: "Ctl RequestQuit \<in> set (map Ctl cs) \<longleftrightarrow> RequestQuit \<in> set cs"
  by auto

lemma pauseGate_quit:
  "pauseGate ws p = Inr (es, p') \<Longrightarrow> doQuit p' = (doQuit p \<or> Ctl RequestQuit \<in> set es)"
proof (induction ws arbitrary: p es)
  case Nil
  then show ?case by (auto split: if_splits)
next
  case (Cons w ws)
  show ?case
  proof (cases "doPause p")
    case False
    with Cons.prems show ?thesis by auto
  next
    case True
    with Cons.prems obtain es0 where a: "pauseGate ws (requests w p) = Inr (es0, p')"
      and b: "es = ([ReadPause, CondWait] @ map Ctl w) @ es0"
      by (auto simp: emit_Inr)
    from Cons.IH [OF a] b show ?thesis by (auto simp: requests_eq)
  qed
qed

lemma decodeLoop_quit:
  "decodeLoop ds sz p = Inr (es, p') \<Longrightarrow> doQuit p' = (doQuit p \<or> Ctl RequestQuit \<in> set es)"
proof (induction ds arbitrary: sz p es)
  case Nil
  then show ?case by simp
next
  case (Cons d ds)
  from Cons.prems show ?case
  proof (cases rule: decodeLoop_ConsE)
    case err
    then show ?thesis by (auto simp: requests_eq)
  next
    case (last e2)
    with playFrame_events [OF last(2)] show ?thesis by (auto simp: requests_eq)
  next
    case (more e2 es')
    with playFrame_events [OF more(2)] Cons.IH [OF more(4)] show ?thesis
      by (auto simp: requests_eq)
  qed
qed

lemma resume_point_append:
  "resume_point t (xs @ ys) = resume_point (resume_point t xs) ys"
  by (simp add: resume_point_def)

lemma playLoop_state:
  "playLoop s rs p = Inr (es, ret, p') \<Longrightarrow>
     lastTimestamp p' = resume_point (lastTimestamp p) (selected_reads (streamIdx p) es)
     \<and> doQuit p' = (doQuit p \<or> Ctl RequestQuit \<in> set es)"
proof (induction rs arbitrary: p es)
  case Nil
  from playLoop_NilE [OF Nil] show ?case
    by (simp add: selected_reads_simps packet_read_def resume_point_def)
next
  case (Cons r rs)
  let ?p1 = "requests (rd_ctl r) (p\<lparr>ping := rd_now r\<rparr>)"
  from Cons.prems show ?case
  proof (cases rule: playLoop_ConsE)
    case quit
    then show ?thesis by (simp add: selected_reads_simps packet_read_def resume_point_def)
  next
    case err
    have "selected_reads (streamIdx p) (map Ctl (rd_ctl r)) = []"
      by (rule selected_reads_quiet) (auto simp: packet_read_def)
    with err show ?thesis
      by (auto simp: selected_reads_simps packet_read_def resume_point_def requests_eq)
  next
    case (skip es')
    have "selected_reads (streamIdx p) (map Ctl (rd_ctl r)) = []"
      by (rule selected_reads_quiet) (auto simp: packet_read_def)
    with skip Cons.IH [OF skip(4)] show ?thesis
      by (auto simp: selected_reads_simps packet_read_def requests_eq)
  next
    case (proc e3 p3 e4 p4 es')
    let ?q = "?p1\<lparr>pkt_write := rd_pkt r\<rparr>"
    let ?body = "map Ctl (rd_ctl r) @ tee s ?q (rd_pkt r) @ e3 @ e4"
    have fl: "same_but_flags ?q p4"
      using pauseGate_flags [OF proc(4)] decodeLoop_flags [OF proc(5)]
      by (blast intro: same_but_flags_trans)
    then have idx: "streamIdx p4 = streamIdx p"
      by (simp add: same_but_flags_def static_def requests_eq)
    have sr: "selected_reads (streamIdx p) ?body = []"
      by (rule selected_reads_quiet) (use body_quiet(5) [OF proc(4) proc(5)] in blast)
    have "\<forall>e\<in>set (tee s ?q (rd_pkt r)). e \<noteq> Ctl RequestQuit"
      using tee_events [of s ?q "rd_pkt r"] by auto
    then have dq: "doQuit p4 = (doQuit p \<or> Ctl RequestQuit \<in> set ?body)"
      using pauseGate_quit [OF proc(4)] decodeLoop_quit [OF proc(5)]
      by (auto simp: requests_eq)
    have es: "es = Ping (rd_now r) # ReadFrame (rd_ret r) (rd_pkt r) # ?body @ es'"
      using proc(7) by simp
    from Cons.IH [OF proc(6)] idx have ih:
      "lastTimestamp p' = resume_point (pts (rd_pkt r)) (selected_reads (streamIdx p) es')"
      "doQuit p' = (doQuit p4 \<or> Ctl RequestQuit \<in> set es')" by simp_all
    have "selected_reads (streamIdx p) es = rd_pkt r # selected_reads (streamIdx p) es'"
      unfolding es using proc(2,3) sr
      by (simp add: selected_reads_simps packet_read_def del: append_assoc)
    then have "resume_point (lastTimestamp p) (selected_reads (streamIdx p) es)
        = resume_point (pts (rd_pkt r)) (selected_reads (streamIdx p) es')"
      by (simp add: resume_point_def)
    moreover have "(doQuit p4 \<or> Ctl RequestQuit \<in> set es') = (doQuit p \<or> Ctl RequestQuit \<in> set es)"
      unfolding es dq by auto
    ultimately show ?thesis using ih by simp
  qed
qed

subsection \<open>What the loop writes to the recording and to the device\<close>

lemma tee_cong: "save_file q = save_file p \<Longrightarrow> ofcx q = ofcx p \<Longrightarrow> tee s q k = tee s p k"
  unfolding tee_def by (simp only:)

lemma tee_static: "static q = static p \<Longrightarrow> tee s q k = tee s p k"
  by (rule tee_cong) (simp_all add: static_def)

lemma ctl_no_packets:
  "selected_reads idx (map Ctl cs) = []" "written (map Ctl cs) = []"
  "sink (map Ctl cs) = []" "reads_done (map Ctl cs) = 0"
proof -
  show "selected_reads idx (map Ctl cs) = []"
    by (rule selected_reads_quiet) (auto simp: packet_read_def)
  show "written (map Ctl cs) = []"
    by (rule written_quiet) (auto simp: frame_written_def)
  show "sink (map Ctl cs) = []"
    by (rule sink_quiet) (auto simp: ao_bytes_def)
  show "reads_done (map Ctl cs) = 0"
    by (rule reads_done_quiet) (auto simp: is_read_def)
qed


lemma playLoop_written:
  assumes "playLoop s rs p = Inr (es, ret, p')"
  shows "written es = concat (map (\<lambda>k. written (tee s p k)) (selected_reads (streamIdx p) es))"
  using assms
proof (induction rs arbitrary: p es)
  case Nil
  from playLoop_NilE [OF Nil] show ?case
    by (simp add: written_simps selected_reads_simps frame_written_def packet_read_def)
next
  case (Cons r rs)
  let ?p1 = "requests (rd_ctl r) (p\<lparr>ping := rd_now r\<rparr>)"
  note ctl = ctl_no_packets(1) [of "streamIdx p" "rd_ctl r"] ctl_no_packets(2) [of "rd_ctl r"]
  from Cons.prems show ?case
  proof (cases rule: playLoop_ConsE)
    case quit
    then show ?thesis
      by (simp add: written_simps selected_reads_simps frame_written_def packet_read_def)
  next
    case err
    with ctl show ?thesis
      by (simp add: written_simps selected_reads_simps frame_written_def packet_read_def)
  next
    case (skip es')
    have st: "static ?p1 = static p" by (simp add: static_def requests_eq)
    then have idx: "streamIdx ?p1 = streamIdx p" by (simp add: static_def)
    have "written es' =
        concat (map (\<lambda>k. written (tee s p k)) (selected_reads (streamIdx p) es'))"
      using Cons.IH [OF skip(4)] unfolding idx tee_static [OF st] .
    with skip ctl show ?thesis
      by (simp add: written_simps selected_reads_simps frame_written_def packet_read_def)
  next
    case (proc e3 p3 e4 p4 es')
    let ?q = "?p1\<lparr>pkt_write := rd_pkt r\<rparr>"
    let ?body = "map Ctl (rd_ctl r) @ tee s ?q (rd_pkt r) @ e3 @ e4"
    let ?p5 = "p4\<lparr>lastTimestamp := pts (rd_pkt r)\<rparr>"
    have fl: "same_but_flags ?q p4"
      using pauseGate_flags [OF proc(4)] decodeLoop_flags [OF proc(5)]
      by (blast intro: same_but_flags_trans)
    then have st: "static ?p5 = static p"
      by (simp add: same_but_flags_def static_def requests_eq)
    then have idx: "streamIdx ?p5 = streamIdx p" by (simp add: static_def)
    have stq: "static ?q = static p" by (simp add: static_def requests_eq)
    have sr: "selected_reads (streamIdx p) ?body = []"
      by (rule selected_reads_quiet) (use body_quiet(5) [OF proc(4) proc(5)] in blast)
    have wr: "written ?body = written (tee s p (rd_pkt r))"
      using body_written [OF proc(4) proc(5), of "rd_ctl r" s "rd_pkt r"]
      unfolding tee_static [OF stq] .
    have es: "es = Ping (rd_now r) # ReadFrame (rd_ret r) (rd_pkt r) # ?body @ es'"
      using proc(7) by simp
    have ih: "written es' =
        concat (map (\<lambda>k. written (tee s p k)) (selected_reads (streamIdx p) es'))"
      using Cons.IH [OF proc(6)] unfolding idx tee_static [OF st] .
    have "selected_reads (streamIdx p) es = rd_pkt r # selected_reads (streamIdx p) es'"
      unfolding es using proc(2,3) sr
      by (simp add: selected_reads_simps packet_read_def del: append_assoc)
    moreover have "written es = written (tee s p (rd_pkt r)) @ written es'"
      unfolding es using wr
      by (simp add: written_simps frame_written_def del: append_assoc)
    ultimately show ?thesis using ih by simp
  qed
qed

lemma held_writes_quiet:
  "\<forall>e\<in>set xs. e \<noteq> ReadPause \<and> e \<noteq> ReadPlay \<and> (h \<longrightarrow> ao_bytes e = []) \<Longrightarrow>
     held_writes h (xs @ ys) = held_writes h ys"
proof (induction xs)
  case Nil
  show ?case by simp
next
  case (Cons e xs)
  then show ?case by (cases e) (simp_all add: ao_bytes_def)
qed

lemma held_writes_gate:
  "set pre \<subseteq> range Ctl \<union> {ReadPause, CondWait} \<Longrightarrow>
     held_writes h (pre @ ReadPlay # ys) = held_writes False ys"
proof (induction pre arbitrary: h)
  case Nil
  show ?case by simp
next
  case (Cons e pre)
  then show ?case by (cases e) auto
qed

lemma playLoop_sink:
  assumes "playLoop s rs p = Inr (es, ret, p')"
  shows "sink es = concat (map (audio_of (streamIdx p)) (take (reads_done es) rs))
         \<and> held_writes False es = []"
  using assms
proof (induction rs arbitrary: p es)
  case Nil
  from playLoop_NilE [OF Nil] show ?case
    by (simp add: sink_simps ao_bytes_def)
next
  case (Cons r rs)
  let ?p1 = "requests (rd_ctl r) (p\<lparr>ping := rd_now r\<rparr>)"
  have hc: "held_writes False (map Ctl (rd_ctl r) @ ys) = held_writes False ys" for ys
    by (rule held_writes_quiet) auto
  note ctl = ctl_no_packets(3,4) [of "rd_ctl r"] hc hc [of "[]", simplified]
  from Cons.prems show ?case
  proof (cases rule: playLoop_ConsE)
    case quit
    then show ?thesis by (simp add: sink_simps ao_bytes_def reads_done_simps is_read_def)
  next
    case err
    then have "audio_of (streamIdx p) r = []" by (simp add: audio_of_def)
    with err ctl show ?thesis
      by (simp add: sink_simps ao_bytes_def reads_done_simps is_read_def)
  next
    case (skip es')
    have "streamIdx ?p1 = streamIdx p" by (simp add: requests_eq)
    with Cons.IH [OF skip(4)] have "sink es' =
        concat (map (audio_of (streamIdx p)) (take (reads_done es') rs))"
      "held_writes False es' = []"
      by simp_all
    moreover from skip have "audio_of (streamIdx p) r = []" by (simp add: audio_of_def)
    ultimately show ?thesis using skip ctl
      by (simp add: sink_simps ao_bytes_def reads_done_simps is_read_def)
  next
    case (proc e3 p3 e4 p4 es')
    let ?q = "?p1\<lparr>pkt_write := rd_pkt r\<rparr>"
    let ?body = "map Ctl (rd_ctl r) @ tee s ?q (rd_pkt r) @ e3 @ e4"
    have fl: "same_but_flags ?q p4"
      using pauseGate_flags [OF proc(4)] decodeLoop_flags [OF proc(5)]
      by (blast intro: same_but_flags_trans)
    then have idx: "streamIdx p4 = streamIdx p"
      by (simp add: same_but_flags_def static_def requests_eq)
    have rd: "reads_done ?body = 0"
      by (rule reads_done_quiet) (use body_quiet(4) [OF proc(4) proc(5)] in blast)
    have sk: "sink ?body = decode_audio (rd_decodes r) (pkt_size (rd_pkt r))"
      by (rule body_sink [OF proc(4) proc(5)])
    from pauseGate_events [OF proc(4)] obtain pre where
      e3: "e3 = pre @ [ReadPlay]" and pre: "set pre \<subseteq> range Ctl \<union> {ReadPause, CondWait}" by blast
    have "\<forall>e\<in>set e4. e \<noteq> ReadPause \<and> e \<noteq> ReadPlay"
      using decodeLoop_events [OF proc(5)] by auto
    then have h4: "\<And>ys. held_writes False (e4 @ ys) = held_writes False ys"
      by (intro held_writes_quiet) simp
    have "\<forall>e\<in>set (tee s ?q (rd_pkt r)). e \<noteq> ReadPause \<and> e \<noteq> ReadPlay"
      using tee_events [of s ?q "rd_pkt r"] by auto
    then have ht: "\<And>ys. held_writes False (tee s ?q (rd_pkt r) @ ys) = held_writes False ys"
      by (intro held_writes_quiet) simp
    have hb: "held_writes False (?body @ es') = held_writes False es'"
      unfolding e3 using held_writes_gate [OF pre, of False "e4 @ es'"]
      by (simp add: hc ht h4)
    have es: "es = Ping (rd_now r) # ReadFrame (rd_ret r) (rd_pkt r) # ?body @ es'"
      using proc(7) by simp
    from Cons.IH [OF proc(6)] idx have ih: "sink es' =
        concat (map (audio_of (streamIdx p)) (take (reads_done es') rs))"
      "held_writes False es' = []"
      by simp_all
    have "reads_done es = Suc (reads_done es')"
      unfolding es using rd by (simp add: reads_done_simps is_read_def del: append_assoc)
    moreover have "sink es = decode_audio (rd_decodes r) (pkt_size (rd_pkt r)) @ sink es'"
      unfolding es using sk by (simp add: sink_simps ao_bytes_def del: append_assoc)
    moreover have "audio_of (streamIdx p) r = decode_audio (rd_decodes r) (pkt_size (rd_pkt r))"
      using proc(2,3) by (simp add: audio_of_def)
    moreover have "held_writes False es = held_writes False es'"
      unfolding es using hb by (simp del: append_assoc)
    ultimately show ?thesis using ih by simp
  qed
qed

text \<open>
  C6 as stated: no byte is written to the device while \<^verbatim>\<open>doPause\<close> is set. The code reads
  the flag once per packet, in the pause gate before the decoder is called. A pause
  requested while a packet is being decoded does not stop the frames of that packet:
  here 4096 bytes go to the device with \<^verbatim>\<open>doPause\<close> set.
\<close>

theorem pause_mid_packet_counterexample:
  "ret_code (BarPlayerThread [demo_session paused_reads] demo_player) = Some PLAYER_RET_OK
   \<and> paused_writes (doPause demo_player)
        (trace_of (BarPlayerThread [demo_session paused_reads] demo_player)) = [4096]"
  by (simp add: demo_defs run_defs paused_reads_def ret_code_def trace_of_def)

text \<open>
  C6 as the code has it. The pause gate hands nothing to the device and lets the worker
  through only with \<^verbatim>\<open>doPause\<close> clear; in a run of the loop of \<^verbatim>\<open>play\<close> no byte is
  written between a gate that finds the flag set and the moment it finds it clear; and
  what is written in the whole run is the audio of the packets read, one after the other,
  each once, as the decoder's answers give it: a pause skips nothing and repeats nothing.
\<close>

theorem pause_gate_holds_playback:
  "(pauseGate ws q = Inr (eg, q') \<longrightarrow> sink eg = [] \<and> \<not> doPause q')
   \<and> (playLoop s rs p = Inr (es, ret, p') \<longrightarrow>
        held_writes False es = []
        \<and> sink es = concat (map (audio_of (streamIdx p)) (take (reads_done es) rs)))"
proof -
  have "sink eg = [] \<and> \<not> doPause q'" if g: "pauseGate ws q = Inr (eg, q')"
  proof -
    from pauseGate_events [OF g] have "\<forall>e\<in>set eg. ao_bytes e = []"
      by (fastforce simp: ao_bytes_def)
    then show ?thesis using pauseGate_flags [OF g] by (simp add: sink_quiet)
  qed
  with playLoop_sink [of s rs p es ret p'] show ?thesis by blast
qed

theorem pause_gate_holds_playback_witness:
  "(\<exists>es p'. playLoop (demo_session []) paused_reads demo_player = Inr (es, AVERROR_EOF, p')
      \<and> held_writes False es = [] \<and> sink es = [4096, 4096] \<and> reads_done es = 3)
   \<and> pauseGate [[], [RequestResume]] (demo_player\<lparr>doPause := True\<rparr>)
       = Inr ([ReadPause, CondWait, ReadPause, CondWait, Ctl RequestResume, ReadPlay], demo_player)"
proof -
  obtain es p' where run: "playLoop (demo_session []) paused_reads demo_player
      = Inr (es, AVERROR_EOF, p')"
    by (simp add: demo_defs run_defs paused_reads_def)
  have rd: "reads_done es = 3"
    using run by (auto simp: demo_defs run_defs paused_reads_def reads_done_def is_read_def)
  have au: "concat (map (audio_of (streamIdx demo_player)) (take 3 paused_reads)) = [4096, 4096]"
    by (simp add: demo_defs paused_reads_def audio_of_def frame_audio_def)
  from pause_gate_holds_playback [of _ _ _ _ "demo_session []" paused_reads demo_player es
      AVERROR_EOF p'] run
  have "held_writes False es = []" "sink es = [4096, 4096]"
    unfolding rd au by blast+
  moreover have "pauseGate [[], [RequestResume]] (demo_player\<lparr>doPause := True\<rparr>)
       = Inr ([ReadPause, CondWait, ReadPause, CondWait, Ctl RequestResume, ReadPlay], demo_player)"
    by (simp add: demo_defs)
  ultimately show ?thesis using run rd by blast
qed

subsection \<open>Decoder errors\<close>

lemma decodeLoop_error_last:
  "decodeLoop ds sz p = Inr (es, p') \<Longrightarrow> DecodeAudio n \<in> set es \<Longrightarrow> n < 0 \<Longrightarrow>
     \<exists>pre cs. es = pre @ DecodeAudio n # map Ctl cs"
proof (induction ds arbitrary: sz p es)
  case Nil
  then show ?case by simp
next
  case (Cons d ds)
  from Cons.prems(1) show ?case
  proof (cases rule: decodeLoop_ConsE)
    case err
    with Cons.prems(2) have "n = decoded d" by auto
    with err show ?thesis by (intro exI [of _ "[]"] exI [of _ "dc_ctl d"]) simp
  next
    case (last e2)
    with playFrame_events [OF last(2)] Cons.prems(2,3) show ?thesis by auto
  next
    case (more e2 es')
    with playFrame_events [OF more(2)] Cons.prems(2,3) have "DecodeAudio n \<in> set es'" by auto
    from Cons.IH [OF more(4) this Cons.prems(3)] obtain pre cs
      where "es' = pre @ DecodeAudio n # map Ctl cs" by blast
    with more(5) show ?thesis
      by (intro exI [of _ "DecodeAudio (decoded d) # map Ctl (dc_ctl d) @ e2 @ pre"] exI [of _ cs])
        simp
  qed
qed

lemma playLoop_ret:
  assumes "playLoop s rs p = Inr (es, ret, p')"
  shows "(ret = 0 \<and> last es = QuitSeen \<and> doQuit p')
         \<or> (ret < 0 \<and> (\<exists>k. ReadFrame ret k \<in> set es))"
  using playLoop_shape [OF assms] by auto

lemma playLoop_reads:
  assumes "playLoop s rs p = Inr (es, ret, p')" and "ReadFrame n k \<in> set es" and "n < 0"
  shows "n = ret \<and> (\<exists>pre cs. es = pre @ ReadFrame n k # map Ctl cs)"
proof -
  from playLoop_shape [OF assms(1)] obtain pre where pre: "\<forall>e\<in>set pre. play_event e"
    and *: "(ret = 0 \<and> es = pre @ [QuitSeen] \<and> doQuit p')
        \<or> (ret < 0 \<and> (\<exists>t k cs. es = pre @ Ping t # ReadFrame ret k # map Ctl cs))" by blast
  from pre assms(3) have np: "ReadFrame n k \<notin> set pre" by (auto simp: play_event_def)
  from * show ?thesis
  proof
    assume "ret = 0 \<and> es = pre @ [QuitSeen] \<and> doQuit p'"
    with assms(2) np show ?thesis by auto
  next
    assume "ret < 0 \<and> (\<exists>t k cs. es = pre @ Ping t # ReadFrame ret k # map Ctl cs)"
    then obtain t k' cs where es: "es = pre @ Ping t # ReadFrame ret k' # map Ctl cs" by blast
    with assms(2) np have "n = ret \<and> k = k'" by auto
    with es show ?thesis
      by (intro conjI exI [of _ "pre @ [Ping t]"] exI [of _ cs]) simp_all
  qed
qed

lemma playLoop_quit_seen:
  assumes "playLoop s rs p = Inr (es, ret, p')" and "QuitSeen \<in> set es"
  shows "ret = 0 \<and> doQuit p' \<and> (\<exists>pre. es = pre @ [QuitSeen] \<and> QuitSeen \<notin> set pre)"
proof -
  from playLoop_shape [OF assms(1)] obtain pre where pre: "\<forall>e\<in>set pre. play_event e"
    and *: "(ret = 0 \<and> es = pre @ [QuitSeen] \<and> doQuit p')
        \<or> (ret < 0 \<and> (\<exists>t k cs. es = pre @ Ping t # ReadFrame ret k # map Ctl cs))" by blast
  from pre have np: "QuitSeen \<notin> set pre" by (auto simp: play_event_def)
  with * assms(2) show ?thesis by auto
qed

subsection \<open>One pass of the retry loop\<close>

lemma openStream_quit:
  assumes "openStream s p = Inr (es, ok, p')"
  shows "doQuit p' = (doQuit p \<or> Ctl RequestQuit \<in> set es)"
    and "lastTimestamp p' = lastTimestamp p"
proof -
  have "doQuit p' = (doQuit p \<or> Ctl RequestQuit \<in> set es) \<and> lastTimestamp p' = lastTimestamp p"
  proof (cases ok)
    case False
    with assms have "openStream s p = Inr (es, False, p')" by simp
    then show ?thesis
      by (cases rule: openStream_failE) auto
  next
    case True
    with assms have "openStream s p = Inr (es, True, p')" by simp
    from openStream_ok [OF this] obtain e6 q where r: "openRecording s q = (e6, p')"
      and es: "es = [Ping (now_open s), OpenInput (url p)] @ map Ctl (open_ctl s)
          @ [Ping (now_info s), FindStreamInfo, Ping (now_best s), FindBestStream, CodecOpen]
          @ (if 0 < lastTimestamp p
             then [Ping (now_seek s), SeekFrame (best_stream s) (lastTimestamp p)] else [])
          @ e6"
      and q: "lastTimestamp q = lastTimestamp p"
        "doQuit q = (doQuit p \<or> RequestQuit \<in> set (open_ctl s))"
      by blast
    from openRecording_events [OF r] have "Ctl RequestQuit \<notin> set e6" by auto
    with es q openRecording_fields(6,9) [OF r] show ?thesis by auto
  qed
  then show "doQuit p' = (doQuit p \<or> Ctl RequestQuit \<in> set es)"
    and "lastTimestamp p' = lastTimestamp p" by simp_all
qed

lemma openStream_ok_state:
  assumes "openStream s p = Inr (es, True, p')"
  shows "fctx p'" "st p'" "streamIdx p' = best_stream s" "mode p' = PLAYER_PLAYING"
    "seeks es = (if 0 < lastTimestamp p then [(best_stream s, lastTimestamp p)] else [])"
    "save_file p' \<Longrightarrow> ofcx p' = Some \<lparr>oc_path = tmp_filename p', ost_id = new_stream_id s,
                        ost_time_base = write_header s (st_time_base s)\<rparr>"
    "fgraph p' = fgraph p" "aoDev p' = aoDev p"
proof -
  from openStream_ok [OF assms] obtain e6 q where r: "openRecording s q = (e6, p')"
    and es: "es = [Ping (now_open s), OpenInput (url p)] @ map Ctl (open_ctl s)
        @ [Ping (now_info s), FindStreamInfo, Ping (now_best s), FindBestStream, CodecOpen]
        @ (if 0 < lastTimestamp p
           then [Ping (now_seek s), SeekFrame (best_stream s) (lastTimestamp p)] else [])
        @ e6"
    and q: "static q = static ((requests (open_ctl s) p)\<lparr>fctx := True, st := True,
          streamIdx := best_stream s, mode := PLAYER_PLAYING, save_file := save_file q\<rparr>)"
    by blast
  from q have qq: "fctx q" "st q" "streamIdx q = best_stream s" "mode q = PLAYER_PLAYING"
    "fgraph q = fgraph p" "aoDev q = aoDev p"
    by (simp_all add: static_def requests_eq)
  with openRecording_fields [OF r]
  show "fctx p'" "st p'" "streamIdx p' = best_stream s" "mode p' = PLAYER_PLAYING"
    "fgraph p' = fgraph p" "aoDev p' = aoDev p"
    by simp_all
  show "seeks es = (if 0 < lastTimestamp p then [(best_stream s, lastTimestamp p)] else [])"
    unfolding es
    by (simp add: seeks_simps seek_of_def ctl_quiet(5) openRecording_quiet(5) [OF r])
  show "ofcx p' = Some \<lparr>oc_path = tmp_filename p', ost_id = new_stream_id s,
                        ost_time_base = write_header s (st_time_base s)\<rparr>" if sf: "save_file p'"
  proof (cases "save_dir (settings q)")
    case None
    from openRecording_None(1) [OF None r] sf show ?thesis by simp
  next
    case (Some d)
    from openRecording_Some(6) [OF Some r sf] show ?thesis .
  qed
qed

lemma open_event_quiet:
  assumes "open_event e"
  shows "\<not> is_read e" "ao_bytes e = []" "frame_written e = []" "packet_read idx e = []"
    "\<not> final_event e" "e \<noteq> QuitSeen" "\<not> is_decode e" "retry_event e" "\<not> teardown_event e \<or> (\<exists>c. e = Ctl c)"
  using assms
  by (cases e; simp add: open_event_def is_read_def ao_bytes_def frame_written_def
      packet_read_def final_event_def is_decode_def retry_event_def teardown_event_def)+

lemma play_event_quiet:
  assumes "play_event e"
  shows "\<not> is_open e" "seek_of e = []" "\<not> final_event e" "e \<noteq> QuitSeen" "retry_event e"
  using assms
  by (cases e; simp add: play_event_def is_open_def seek_of_def final_event_def
      retry_event_def)+

lemma teardown_retry: "teardown_event e \<Longrightarrow> retry_event e"
  by (cases e; simp add: teardown_event_def retry_event_def)

lemma finish_quit:
  assumes "finish s p = (es, p')"
  shows "doQuit p' = (doQuit p \<or> Ctl RequestQuit \<in> set es)"
  using finish_facts(1,6) [OF assms] by auto

lemma finish_closed:
  assumes "finish s p = (es, p')"
  shows "\<not> fctx p'" "\<not> st p'" "\<not> fgraph p'" "\<not> aoDev p'" "save_file p' = save_file p"
    "ofcx p' = ofcx p" "tmp_filename p' = tmp_filename p" "save_complete p' = save_complete p"
    "streamIdx p' = streamIdx p" "mode p' = mode p"
  using finish_facts(2) [OF assms] by (simp_all add: static_def)

lemma finish_all:
  assumes "finish s p = (es, p')" and "fgraph p" and "st p" and "fctx p"
  shows "es = map Ctl (close_ctl s) @ [AoClose, GraphFree, CodecClose, CloseInput]"
  using finish_facts(1) [OF assms(1)] assms(2-) by simp

lemma openFilter_fields:
  assumes "openFilter f p = (ok, p')"
  shows "static p' = static (p\<lparr>fgraph := fgraph p'\<rparr>)" "lastTimestamp p' = lastTimestamp p"
    "doQuit p' = doQuit p" "ping p' = ping p" "pkt_write p' = pkt_write p" "ok \<Longrightarrow> fgraph p'"
  using assms
  by (auto simp: openFilter_def Let_def static_def split: if_splits)

lemma openDevice_fields:
  assumes "openDevice s p = (es, ok, p')"
  shows "static p' = static (p\<lparr>aoDev := ok\<rparr>)" "lastTimestamp p' = lastTimestamp p"
    "doQuit p' = doQuit p" "ping p' = ping p" "pkt_write p' = pkt_write p" "es = [AoOpenLive]"
  using assms
  by (auto simp: openDevice_def static_def split: if_splits)

lemma openStream_alphabet:
  assumes "openStream s p = Inr (es, ok, p')"
  shows "\<forall>e\<in>set es. open_event e" and "opens es = 1"
proof -
  have hd: "\<And>t. open_event (Ping t)" "\<And>u. open_event (OpenInput u)"
    "open_event FindStreamInfo" "open_event FindBestStream" "open_event CodecOpen"
    "\<And>i t. open_event (SeekFrame i t)"
    by (simp_all add: open_event_def)
  have "(\<forall>e\<in>set es. open_event e) \<and> opens es = 1"
  proof (cases ok)
    case False
    with assms have "openStream s p = Inr (es, False, p')" by simp
    then show ?thesis
    proof (cases rule: openStream_failE)
      case (1 rest)
      from 1(3) have "(\<forall>e\<in>set rest. open_event e) \<and> opens rest = 0"
        by (auto simp: hd opens_simps is_open_def)
      with 1(2) ctl_quiet(1,2) [of "open_ctl s"] show ?thesis
        by (auto simp: opens_simps is_open_def hd simp del: set_map)
    qed
  next
    case True
    with assms have "openStream s p = Inr (es, True, p')" by simp
    from openStream_ok [OF this] obtain e6 q where r: "openRecording s q = (e6, p')"
      and es: "es = [Ping (now_open s), OpenInput (url p)] @ map Ctl (open_ctl s)
          @ [Ping (now_info s), FindStreamInfo, Ping (now_best s), FindBestStream, CodecOpen]
          @ (if 0 < lastTimestamp p
             then [Ping (now_seek s), SeekFrame (best_stream s) (lastTimestamp p)] else [])
          @ e6"
      by blast
    from es ctl_quiet(1,2) [of "open_ctl s"] openRecording_quiet(1,2) [OF r] show ?thesis
      by (auto simp: opens_simps is_open_def hd simp del: set_map)
  qed
  then show "\<forall>e\<in>set es. open_event e" and "opens es = 1" by simp_all
qed

lemma attempt_cases:
  assumes "attempt s pret p = Inr (es, retry, pret', p')"
  obtains (failed) "\<not> retry" "pret' = PLAYER_RET_SOFTFAIL \<or> pret' = PLAYER_RET_HARDFAIL"
      "\<forall>e\<in>set es. open_event e \<or> teardown_event e \<or> e = AoOpenLive"
  | (played) e1 p1 p3 e4 ret p4 e5 where
      "openStream s p = Inr (e1, True, p1)"
      "static p3 = static (p1\<lparr>fgraph := True, aoDev := True\<rparr>)"
      "lastTimestamp p3 = lastTimestamp p" "doQuit p3 = doQuit p1"
      "playLoop s (reads s) p3 = Inr (e4, ret, p4)"
      "finish s p4 = (e5, p')"
      "es = e1 @ [AoOpenLive] @ e4 @ e5"
      "e5 = map Ctl (close_ctl s) @ [AoClose, GraphFree, CodecClose, CloseInput]"
      "retry = (ret = AVERROR_INVALIDDATA)" "pret' = pret"
  using assms
proof (cases rule: attempt_E)
  case (soft e1 p1 e5)
  from openStream_alphabet(1) [OF soft(1)] finish_quiet [OF soft(2)] soft(3)
  have "\<forall>e\<in>set es. open_event e \<or> teardown_event e \<or> e = AoOpenLive" by auto
  with soft show ?thesis by (intro failed) simp_all
next
  case (hard_filter e1 p1 p2 e5)
  from openStream_alphabet(1) [OF hard_filter(1)] finish_quiet [OF hard_filter(3)] hard_filter(4)
  have "\<forall>e\<in>set es. open_event e \<or> teardown_event e \<or> e = AoOpenLive" by auto
  with hard_filter show ?thesis by (intro failed) simp_all
next
  case (hard_device e1 p1 p2 e3 p3 e5)
  from openStream_alphabet(1) [OF hard_device(1)] finish_quiet [OF hard_device(4)]
    hard_device(5) openDevice_fields(6) [OF hard_device(3)]
  have "\<forall>e\<in>set es. open_event e \<or> teardown_event e \<or> e = AoOpenLive" by auto
  with hard_device show ?thesis by (intro failed) simp_all
next
  case (played e1 p1 p2 e3 p3 e4 ret p4 e5)
  note f = openFilter_fields [OF played(2)] and d = openDevice_fields [OF played(3)]
  from f(1,6) d(1) have st3: "static p3 = static (p1\<lparr>fgraph := True, aoDev := True\<rparr>)"
    by (simp add: static_def)
  from f(2,3) d(2,3) openStream_quit(2) [OF played(1)]
  have l3: "lastTimestamp p3 = lastTimestamp p" "doQuit p3 = doQuit p1" by simp_all
  from played(4) have pl: "playLoop s (reads s) p3 = Inr (e4, ret, p4)"
    by (simp add: play_def split: if_splits)
  from playLoop_frame [OF pl] st3 openStream_ok_state(1,2) [OF played(1)]
  have "fgraph p4" "st p4" "fctx p4" by (simp_all add: same_but_play_def static_def)
  from finish_all [OF played(5) this]
  have e5: "e5 = map Ctl (close_ctl s) @ [AoClose, GraphFree, CodecClose, CloseInput]" .
  from played(1) st3 l3 pl played(5) _ e5 played(7,8) show ?thesis
    by (rule that(2)) (use played(6) d(6) in simp)
qed

lemma invalid_negative: "AVERROR_INVALIDDATA < 0" "AVERROR_INVALIDDATA \<noteq> 0"
  by (simp_all add: AVERROR_INVALIDDATA_def)

lemma attempt_quit:
  assumes "attempt s pret p = Inr (es, retry, pret', p')"
  shows "doQuit p' = (doQuit p \<or> Ctl RequestQuit \<in> set es)"
  using assms
proof (cases rule: attempt_E)
  case (soft e1 p1 e5)
  with openStream_quit(1) [OF soft(1)] finish_quit [OF soft(2)] show ?thesis by auto
next
  case (hard_filter e1 p1 p2 e5)
  with openStream_quit(1) [OF hard_filter(1)] openFilter_fields(3) [OF hard_filter(2)]
    finish_quit [OF hard_filter(3)] show ?thesis by auto
next
  case (hard_device e1 p1 p2 e3 p3 e5)
  with openStream_quit(1) [OF hard_device(1)] openFilter_fields(3) [OF hard_device(2)]
    openDevice_fields(3,6) [OF hard_device(3)] finish_quit [OF hard_device(4)]
  show ?thesis by auto
next
  case (played e1 p1 p2 e3 p3 e4 ret p4 e5)
  from played(4) have pl: "playLoop s (reads s) p3 = Inr (e4, ret, p4)"
    by (simp add: play_def split: if_splits)
  with played openStream_quit(1) [OF played(1)] openFilter_fields(3) [OF played(2)]
    openDevice_fields(3,6) [OF played(3)] playLoop_state [OF pl] finish_quit [OF played(5)]
  show ?thesis by auto
qed

lemma attempt_common:
  assumes "attempt s pret p = Inr (es, retry, pret', p')"
  shows "\<forall>e\<in>set es. \<not> final_event e" and "opens es = 1"
    and "\<not> fctx p'" and "retry \<Longrightarrow> pret' = pret"
proof -
  have ao: "\<not> final_event AoOpenLive" "\<not> is_open AoOpenLive"
    by (simp_all add: final_event_def is_open_def)
  have "(\<forall>e\<in>set es. \<not> final_event e) \<and> opens es = 1 \<and> \<not> fctx p' \<and> (retry \<longrightarrow> pret' = pret)"
    using assms
  proof (cases rule: attempt_E)
    case (soft e1 p1 e5)
    from finish_quiet [OF soft(2)] teardown_quiet(4,9) have "\<forall>e\<in>set e5. \<not> final_event e"
      "opens e5 = 0" by (auto intro: opens_quiet)
    with soft openStream_alphabet [OF soft(1)] open_event_quiet(5) finish_closed(1) [OF soft(2)]
    show ?thesis by (auto simp: opens_simps)
  next
    case (hard_filter e1 p1 p2 e5)
    from finish_quiet [OF hard_filter(3)] teardown_quiet(4,9)
    have "\<forall>e\<in>set e5. \<not> final_event e" "opens e5 = 0" by (auto intro: opens_quiet)
    with hard_filter openStream_alphabet [OF hard_filter(1)] open_event_quiet(5)
      finish_closed(1) [OF hard_filter(3)]
    show ?thesis by (auto simp: opens_simps)
  next
    case (hard_device e1 p1 p2 e3 p3 e5)
    from finish_quiet [OF hard_device(4)] teardown_quiet(4,9)
    have "\<forall>e\<in>set e5. \<not> final_event e" "opens e5 = 0" by (auto intro: opens_quiet)
    with hard_device openStream_alphabet [OF hard_device(1)] open_event_quiet(5)
      finish_closed(1) [OF hard_device(4)] openDevice_fields(6) [OF hard_device(3)] ao
    show ?thesis by (auto simp: opens_simps)
  next
    case (played e1 p1 p2 e3 p3 e4 ret p4 e5)
    from played(4) have pl: "playLoop s (reads s) p3 = Inr (e4, ret, p4)"
      by (simp add: play_def split: if_splits)
    from playLoop_shape [OF pl] obtain pre where pre: "\<forall>e\<in>set pre. play_event e"
      and e4: "e4 = pre @ [QuitSeen] \<or> (\<exists>t k cs. e4 = pre @ Ping t # ReadFrame ret k # map Ctl cs)"
      by blast
    from pre play_event_quiet(1,3) have "\<forall>e\<in>set pre. \<not> final_event e" "opens pre = 0"
      by (auto intro: opens_quiet)
    with e4 have "(\<forall>e\<in>set e4. \<not> final_event e) \<and> opens e4 = 0"
      by (auto simp: opens_simps final_event_def is_open_def opens_quiet)
    moreover from finish_quiet [OF played(5)] teardown_quiet(4,9)
    have "\<forall>e\<in>set e5. \<not> final_event e" "opens e5 = 0" by (auto intro: opens_quiet)
    ultimately show ?thesis
      using played openStream_alphabet [OF played(1)] open_event_quiet(5)
        finish_closed(1) [OF played(5)] openDevice_fields(6) [OF played(3)] ao
      by (auto simp: opens_simps)
  qed
  then show "\<forall>e\<in>set es. \<not> final_event e" and "opens es = 1"
    and "\<not> fctx p'" and "retry \<Longrightarrow> pret' = pret" by simp_all
qed

lemma setup_event_quiet:
  assumes "open_event e \<or> teardown_event e \<or> e = AoOpenLive"
  shows "\<not> is_read e" "e \<noteq> QuitSeen" "\<not> is_decode e" "retry_event e" "ao_bytes e = []"
    "frame_written e = []" "packet_read idx e = []"
  using assms open_event_quiet [of e] teardown_quiet [of e] teardown_retry [of e]
  by (auto simp: is_read_def is_decode_def retry_event_def ao_bytes_def frame_written_def
      packet_read_def)

lemma attempt_reads:
  assumes "attempt s pret p = Inr (es, retry, pret', p')"
    and "ReadFrame n k \<in> set es" and "n < 0"
  shows "pret' = pret \<and> retry = (n = AVERROR_INVALIDDATA)
         \<and> (\<exists>pre post. es = pre @ ReadFrame n k # post \<and> (\<forall>e\<in>set post. teardown_event e))"
  using assms(1)
proof (cases rule: attempt_cases)
  case failed
  with assms(2) setup_event_quiet(1) [of "ReadFrame n k"] show ?thesis
    by (auto simp: is_read_def)
next
  case (played e1 p1 p3 e4 ret p4 e5)
  have no: "\<not> open_event (ReadFrame n k)" "\<not> teardown_event (ReadFrame n k)"
    by (simp_all add: open_event_def teardown_event_def)
  from openStream_alphabet(1) [OF played(1)] no(1)
  have "ReadFrame n k \<notin> set e1" by blast
  moreover from finish_quiet [OF played(6)] no(2)
  have "ReadFrame n k \<notin> set e5" by blast
  ultimately have "ReadFrame n k \<in> set e4" using assms(2) played(7) by auto
  from playLoop_reads [OF played(5) this assms(3)] obtain pre cs
    where n: "n = ret" and e4: "e4 = pre @ ReadFrame n k # map Ctl cs" by blast
  have "\<forall>e\<in>set (map Ctl cs @ e5). teardown_event e"
    using finish_quiet [OF played(6)] by (auto simp: teardown_event_def)
  moreover have "es = (e1 @ [AoOpenLive] @ pre) @ ReadFrame n k # (map Ctl cs @ e5)"
    using played(7) e4 by simp
  ultimately show ?thesis using played(9,10) n by blast
qed

lemma attempt_quit_seen:
  assumes "attempt s pret p = Inr (es, retry, pret', p')" and "QuitSeen \<in> set es"
  shows "pret' = pret \<and> \<not> retry \<and> doQuit p'
         \<and> (\<exists>pre post. es = pre @ QuitSeen # post \<and> (\<forall>e\<in>set post. teardown_event e))"
  using assms(1)
proof (cases rule: attempt_cases)
  case failed
  with assms(2) setup_event_quiet(2) [of QuitSeen] show ?thesis by auto
next
  case (played e1 p1 p3 e4 ret p4 e5)
  have no: "\<not> open_event QuitSeen" "\<not> teardown_event QuitSeen"
    by (simp_all add: open_event_def teardown_event_def)
  from openStream_alphabet(1) [OF played(1)] no(1)
  have "QuitSeen \<notin> set e1" by blast
  moreover from finish_quiet [OF played(6)] no(2)
  have "QuitSeen \<notin> set e5" by blast
  ultimately have "QuitSeen \<in> set e4" using assms(2) played(7) by auto
  from playLoop_quit_seen [OF played(5) this] obtain pre
    where r: "ret = 0" "doQuit p4" and e4: "e4 = pre @ [QuitSeen]" by blast
  have "es = (e1 @ [AoOpenLive] @ pre) @ QuitSeen # e5"
    using played(7) e4 by simp
  moreover from r(2) finish_quit [OF played(6)] have "doQuit p'" by simp
  ultimately show ?thesis using played(9,10) r(1) finish_quiet [OF played(6)] invalid_negative
    by blast
qed

lemma attempt_retry_events:
  assumes "attempt s pret p = Inr (es, True, pret', p')"
  shows "\<forall>e\<in>set es. retry_event e"
  using assms
proof (cases rule: attempt_cases)
  case failed
  then show ?thesis by simp
next
  case (played e1 p1 p3 e4 ret p4 e5)
  from playLoop_shape [OF played(5)] played(9) invalid_negative obtain pre t k cs
    where pre: "\<forall>e\<in>set pre. play_event e"
      and e4: "e4 = pre @ Ping t # ReadFrame AVERROR_INVALIDDATA k # map Ctl cs"
    by auto
  from pre play_event_quiet(5) have "\<forall>e\<in>set e4. retry_event e"
    unfolding e4 by (auto simp: retry_event_def)
  moreover from openStream_alphabet(1) [OF played(1)] open_event_quiet(8)
  have "\<forall>e\<in>set e1. retry_event e" by auto
  moreover from finish_quiet [OF played(6)] teardown_retry
  have "\<forall>e\<in>set e5. retry_event e" by auto
  ultimately show ?thesis using played(7) by (auto simp: retry_event_def)
qed

lemma attempt_retry_iff:
  assumes "attempt s pret p = Inr (es, retry, pret', p')"
  shows "retry \<longleftrightarrow> (\<exists>k. ReadFrame AVERROR_INVALIDDATA k \<in> set es)"
proof
  assume retry
  with assms show "\<exists>k. ReadFrame AVERROR_INVALIDDATA k \<in> set es"
  proof (cases rule: attempt_cases)
    case failed
    with \<open>retry\<close> show ?thesis by simp
  next
    case (played e1 p1 p3 e4 ret p4 e5)
    from playLoop_ret [OF played(5)] played(9) \<open>retry\<close> invalid_negative
    obtain k where "ReadFrame AVERROR_INVALIDDATA k \<in> set e4" by auto
    with played(7) show ?thesis by auto
  qed
next
  assume "\<exists>k. ReadFrame AVERROR_INVALIDDATA k \<in> set es"
  then obtain k where "ReadFrame AVERROR_INVALIDDATA k \<in> set es" ..
  from attempt_reads [OF assms this invalid_negative(1)] show retry by simp
qed

lemma attempt_decode:
  assumes "attempt s pret p = Inr (es, retry, pret', p')" and "pret' \<noteq> pret"
  shows "\<forall>e\<in>set es. \<not> is_decode e"
  using assms(1)
proof (cases rule: attempt_cases)
  case failed
  with setup_event_quiet(3) show ?thesis by blast
next
  case played
  with assms(2) show ?thesis by simp
qed

lemma retryLoop_split:
  "retryLoop ss pret p = Inr (es, pret', p') \<Longrightarrow>
     \<exists>before s q last. es = before @ last \<and> attempt s pret q = Inr (last, False, pret', p')
       \<and> (\<forall>e\<in>set before. retry_event e)
       \<and> doQuit q = (doQuit p \<or> Ctl RequestQuit \<in> set before)"
proof (induction ss arbitrary: p es)
  case Nil
  then show ?case by simp
next
  case (Cons s ss)
  from Cons.prems obtain e1 retry pret1 p1 where a: "attempt s pret p = Inr (e1, retry, pret1, p1)"
    and b: "if retry then emit e1 (retryLoop ss pret1 p1) = Inr (es, pret', p')
            else (e1, pret1, p1) = (es, pret', p')"
    by (auto split: sum.splits if_splits)
  show ?case
  proof (cases retry)
    case False
    with a b show ?thesis
      by (intro exI [of _ "[]"] exI [of _ s] exI [of _ p] exI [of _ es]) simp
  next
    case True
    with b obtain e2 where c: "retryLoop ss pret1 p1 = Inr (e2, pret', p')" "es = e1 @ e2"
      by (auto simp: emit_Inr)
    from attempt_common(4) [OF a True] have pr: "pret1 = pret" .
    from Cons.IH [OF c(1) [unfolded pr]] obtain before s' q last
      where ih: "e2 = before @ last" "attempt s' pret q = Inr (last, False, pret', p')"
        "\<forall>e\<in>set before. retry_event e"
        "doQuit q = (doQuit p1 \<or> Ctl RequestQuit \<in> set before)" by blast
    from a True have "attempt s pret p = Inr (e1, True, pret1, p1)" by simp
    then have "\<forall>e\<in>set e1. retry_event e" by (rule attempt_retry_events)
    with ih(3) have "\<forall>e\<in>set (e1 @ before). retry_event e" by auto
    moreover have "doQuit q = (doQuit p \<or> Ctl RequestQuit \<in> set (e1 @ before))"
      using ih(4) attempt_quit [OF a] by auto
    moreover have "es = (e1 @ before) @ last" using c(2) ih(1) by simp
    ultimately show ?thesis using ih(2) by blast
  qed
qed

subsection \<open>The whole thread\<close>

lemma thread_split:
  assumes "BarPlayerThread ss p = Inr (es, pret, p')"
  obtains before s q last p1 where "es = before @ last @ finalize p'"
    "attempt s PLAYER_RET_OK q = Inr (last, False, pret, p1)"
    "p' = p1\<lparr>mode := PLAYER_FINISHED\<rparr>" "\<forall>e\<in>set before. retry_event e"
    "doQuit q = (doQuit p \<or> Ctl RequestQuit \<in> set before)"
  using assms
proof (cases rule: BarPlayerThread_E)
  case (1 e1 p1)
  from retryLoop_split [OF 1(1)] obtain before s q last where
    "e1 = before @ last" "attempt s PLAYER_RET_OK q = Inr (last, False, pret, p1)"
    "\<forall>e\<in>set before. retry_event e"
    "doQuit q = (doQuit p \<or> Ctl RequestQuit \<in> set before)" by blast
  with 1(2,3) show ?thesis by (intro that [of before last s q p1]) simp_all
qed

lemma finalize_events:
  "\<forall>e\<in>set (finalize p). final_event e" "opens (finalize p) = 0" "reads_done (finalize p) = 0"
  "Ctl c \<notin> set (finalize p)" "QuitSeen \<notin> set (finalize p)" "ReadFrame n k \<notin> set (finalize p)"
  by (auto simp: finalize_def final_event_def opens_def is_open_def reads_done_def is_read_def)

lemma thread_mode:
  assumes "BarPlayerThread ss p = Inr (es, pret, p')"
  shows "mode p' = PLAYER_FINISHED"
  using assms by (cases rule: BarPlayerThread_E) simp

lemma thread_reads:
  assumes "BarPlayerThread ss p = Inr (es, pret, p')"
    and "ReadFrame n k \<in> set es" and "n < 0" and "n \<noteq> AVERROR_INVALIDDATA"
  shows "pret = PLAYER_RET_OK
     \<and> (\<exists>pre post. es = pre @ ReadFrame n k # post \<and> opens post = 0 \<and> reads_done post = 0)"
  using assms(1)
proof (cases rule: thread_split)
  case (1 before s q last p1)
  from assms(3,4) have "\<not> retry_event (ReadFrame n k)" by (simp add: retry_event_def)
  with 1(4) have "ReadFrame n k \<notin> set before" by blast
  with assms(2) 1(1) finalize_events(6) have "ReadFrame n k \<in> set last" by auto
  from attempt_reads [OF 1(2) this assms(3)] obtain pre post
    where pr: "pret = PLAYER_RET_OK" and last: "last = pre @ ReadFrame n k # post"
      and post: "\<forall>e\<in>set post. teardown_event e" by blast
  from post teardown_quiet(3,4) have "opens post = 0" "reads_done post = 0"
    by (auto intro: opens_quiet reads_done_quiet)
  then have "opens (post @ finalize p') = 0" "reads_done (post @ finalize p') = 0"
    by (simp_all add: opens_simps reads_done_simps finalize_events)
  moreover have "es = (before @ pre) @ ReadFrame n k # (post @ finalize p')"
    using 1(1) last by simp
  ultimately show ?thesis using pr by blast
qed

lemma thread_quit_seen:
  assumes "BarPlayerThread ss p = Inr (es, pret, p')" and "QuitSeen \<in> set es"
  shows "pret = PLAYER_RET_OK \<and> doQuit p'
     \<and> (\<exists>pre post. es = pre @ QuitSeen # post \<and> (\<forall>e\<in>set post. teardown_event e))"
  using assms(1)
proof (cases rule: thread_split)
  case (1 before s q last p1)
  have "\<not> retry_event QuitSeen" by (simp add: retry_event_def)
  with 1(4) have "QuitSeen \<notin> set before" by blast
  with assms(2) 1(1) finalize_events(5) have "QuitSeen \<in> set last" by auto
  from attempt_quit_seen [OF 1(2) this] obtain pre post
    where pr: "pret = PLAYER_RET_OK" and dq: "doQuit p1" and last: "last = pre @ QuitSeen # post"
      and post: "\<forall>e\<in>set post. teardown_event e" by blast
  from dq 1(3) have dq': "doQuit p'" by simp
  then have "finalize p' = []" by (simp add: finalize_def)
  with 1(1) last have "es = (before @ pre) @ QuitSeen # post" by simp
  with pr dq' post show ?thesis by blast
qed

lemma thread_final:
  assumes "BarPlayerThread ss p = Inr (es, pret, p')"
  shows "filter final_event es = finalize p'
         \<and> doQuit p' = (doQuit p \<or> Ctl RequestQuit \<in> set es)"
  using assms(1)
proof (cases rule: thread_split)
  case (1 before s q last p1)
  have "\<forall>e\<in>set before. \<not> final_event e"
    using 1(4) by (auto simp: retry_event_def final_event_def split: event.splits)
  moreover note attempt_common(1) [OF 1(2)]
  ultimately have "filter final_event (before @ last) = []" by simp
  with 1(1) finalize_events(1) [of p'] have a: "filter final_event es = finalize p'"
    by simp
  from attempt_quit [OF 1(2)] 1(3,5) have "doQuit p' = (doQuit p \<or> Ctl RequestQuit \<in> set (before @ last))"
    by auto
  with 1(1) finalize_events(4) [of RequestQuit p']
  have "doQuit p' = (doQuit p \<or> Ctl RequestQuit \<in> set es)" by auto
  with a show ?thesis ..
qed

text \<open>
  C3 as stated: a packet read that fails with an error other than corrupted data makes
  the result SOFTFAIL. In the code the value returned by \<^verbatim>\<open>play\<close> is only compared
  with \<^verbatim>\<open>AVERROR_INVALIDDATA\<close>; \<^verbatim>\<open>pret\<close> is assigned only where \<^verbatim>\<open>openStream\<close>,
  \<^verbatim>\<open>openFilter\<close> or \<^verbatim>\<open>openDevice\<close> fails. Here the second read fails with an I/O error
  and the thread returns OK.
\<close>

theorem read_failure_counterexample:
  "ret_code (BarPlayerThread [demo_session [demo_read 0, failed_read AVERROR_EIO]] demo_player)
     = Some PLAYER_RET_OK
   \<and> ReadFrame AVERROR_EIO (demo_packet 0)
       \<in> set (trace_of (BarPlayerThread [demo_session [demo_read 0, failed_read AVERROR_EIO]]
                  demo_player))
   \<and> AVERROR_EIO \<noteq> AVERROR_INVALIDDATA"
  by (simp add: demo_defs run_defs ret_code_def trace_of_def)

text \<open>
  C3 as the code has it: when a packet read fails with an error other than corrupted
  data, the loop of \<^verbatim>\<open>play\<close> ends, nothing is reopened and no packet is read after it
  (the corrupted-data retry is not taken), and the result of the thread is OK: the end of
  the stream is such an error, and the code does not tell it from any other.
\<close>

theorem read_failure_ends_with_ok:
  "BarPlayerThread ss p = Inr (es, pret, p') \<and> ReadFrame n k \<in> set es \<and> n < 0
     \<and> n \<noteq> AVERROR_INVALIDDATA \<longrightarrow>
   pret = PLAYER_RET_OK \<and> mode p' = PLAYER_FINISHED
   \<and> (\<exists>pre post. es = pre @ ReadFrame n k # post \<and> opens post = 0 \<and> reads_done post = 0)"
  using thread_reads thread_mode by blast

theorem read_failure_ends_with_ok_witness:
  "\<exists>es p' pre post.
     BarPlayerThread [demo_session [demo_read 0, failed_read AVERROR_EIO]] demo_player
       = Inr (es, PLAYER_RET_OK, p')
     \<and> mode p' = PLAYER_FINISHED
     \<and> es = pre @ ReadFrame AVERROR_EIO (demo_packet 0) # post \<and> opens post = 0
     \<and> reads_done post = 0"
proof -
  let ?ss = "[demo_session [demo_read 0, failed_read AVERROR_EIO]]"
  obtain es pret p' where run: "BarPlayerThread ?ss demo_player = Inr (es, pret, p')"
    by (simp add: demo_defs run_defs)
  have rd: "ReadFrame AVERROR_EIO (demo_packet 0) \<in> set es"
    using run by (auto simp: demo_defs run_defs)
  have neg: "AVERROR_EIO < 0" "AVERROR_EIO \<noteq> AVERROR_INVALIDDATA"
    by (simp_all add: demo_defs)
  from read_failure_ends_with_ok [of ?ss demo_player es pret p' AVERROR_EIO "demo_packet 0"]
    run rd neg
  show ?thesis by auto
qed

text \<open>
  C1 as stated: on a fatal failure the temporary file is left as it is and nothing
  appears at the final path. The final block of the thread looks at \<^verbatim>\<open>save_file\<close> and
  \<^verbatim>\<open>doQuit\<close> only. Here the stream opens and the recording is set up, then the audio
  device cannot be opened: the result is HARDFAIL, and the trailer is written and the file
  moved to the final path all the same.
\<close>

theorem finalized_on_hardfail_counterexample:
  "ret_code (BarPlayerThread [demo_session []\<lparr>ao_open_ok := False\<rparr>] demo_player)
     = Some PLAYER_RET_HARDFAIL
   \<and> filter final_event
        (trace_of (BarPlayerThread [demo_session []\<lparr>ao_open_ok := False\<rparr>] demo_player))
     = [WriteTrailer, FreeContext, AvioClose,
        System (mv_command ''/tmp/Ann - Tune.aac'' ''/music/Jazz/Ann - Tune.aac'')]"
  by (simp add: demo_defs run_defs ret_code_def trace_of_def final_event_def)

text \<open>
  C1 as the code has it: when the thread returns, the mode is FINISHED, and the trailer is
  written, the container closed and the \<^verbatim>\<open>mv\<close> command for the temporary and the final
  path run exactly when \<^verbatim>\<open>save_file\<close> is set and \<^verbatim>\<open>doQuit\<close> is not, whatever the
  result; \<^verbatim>\<open>doQuit\<close> is set at that point exactly when it was set at the start or a quit
  was requested at any time during the run. These are the only finalizing events of the
  whole trace and they come last. (What the \<^verbatim>\<open>mv\<close> command does is outside the program.)
\<close>

theorem recording_finalized_iff:
  "BarPlayerThread ss p = Inr (es, pret, p') \<longrightarrow>
     mode p' = PLAYER_FINISHED
     \<and> filter final_event es =
         (if save_file p' \<and> \<not> doQuit p'
          then [WriteTrailer, FreeContext, AvioClose,
                System (mv_command (tmp_filename p') (save_complete p'))]
          else [])
     \<and> (\<exists>pre. es = pre @ filter final_event es \<and> filter final_event pre = [])
     \<and> doQuit p' = (doQuit p \<or> Ctl RequestQuit \<in> set es)"
proof
  assume run: "BarPlayerThread ss p = Inr (es, pret, p')"
  from thread_final [OF run] have f: "filter final_event es = finalize p'"
    and q: "doQuit p' = (doQuit p \<or> Ctl RequestQuit \<in> set es)" by simp_all
  from run obtain e1 p1 where es: "es = e1 @ finalize p'"
    by (cases rule: BarPlayerThread_E) blast
  from f es finalize_events(1) [of p'] have "filter final_event e1 = []" by simp
  with es f have "\<exists>pre. es = pre @ filter final_event es \<and> filter final_event pre = []"
    by auto
  with f q thread_mode [OF run]
  show "mode p' = PLAYER_FINISHED
     \<and> filter final_event es =
         (if save_file p' \<and> \<not> doQuit p'
          then [WriteTrailer, FreeContext, AvioClose,
                System (mv_command (tmp_filename p') (save_complete p'))]
          else [])
     \<and> (\<exists>pre. es = pre @ filter final_event es \<and> filter final_event pre = [])
     \<and> doQuit p' = (doQuit p \<or> Ctl RequestQuit \<in> set es)"
    by (simp add: finalize_def)
qed

theorem recording_finalized_iff_witness:
  "(\<exists>es p'. BarPlayerThread [demo_session [demo_read 0, failed_read AVERROR_EOF]] demo_player
        = Inr (es, PLAYER_RET_OK, p')
      \<and> filter final_event es =
          [WriteTrailer, FreeContext, AvioClose,
           System (mv_command ''/tmp/Ann - Tune.aac'' ''/music/Jazz/Ann - Tune.aac'')])
   \<and> (\<exists>es p'. BarPlayerThread
          [demo_session [(demo_read 0)\<lparr>rd_ctl := [RequestQuit]\<rparr>, failed_read AVERROR_EOF]]
          demo_player = Inr (es, PLAYER_RET_OK, p')
      \<and> filter final_event es = [] \<and> doQuit p')"
proof -
  let ?a = "[demo_session [demo_read 0, failed_read AVERROR_EOF]]"
  let ?b = "[demo_session [(demo_read 0)\<lparr>rd_ctl := [RequestQuit]\<rparr>, failed_read AVERROR_EOF]]"
  obtain es p' where a: "BarPlayerThread ?a demo_player = Inr (es, PLAYER_RET_OK, p')"
    and a': "save_file p'" "\<not> doQuit p'" "tmp_filename p' = ''/tmp/Ann - Tune.aac''"
      "save_complete p' = ''/music/Jazz/Ann - Tune.aac''"
    by (simp add: demo_defs run_defs)
  obtain fs q' where b: "BarPlayerThread ?b demo_player = Inr (fs, PLAYER_RET_OK, q')"
    and b': "Ctl RequestQuit \<in> set fs"
    by (simp add: demo_defs run_defs)
  from recording_finalized_iff [of ?a demo_player es PLAYER_RET_OK p'] a a'
  have 1: "filter final_event es =
          [WriteTrailer, FreeContext, AvioClose,
           System (mv_command ''/tmp/Ann - Tune.aac'' ''/music/Jazz/Ann - Tune.aac'')]"
    by simp
  from recording_finalized_iff [of ?b demo_player fs PLAYER_RET_OK q'] b b'
  have 2: "filter final_event fs = [] \<and> doQuit q'"
    by simp
  from 1 2 a b show ?thesis by blast
qed

text \<open>
  C5. Once the loop condition of \<^verbatim>\<open>play\<close> finds \<^verbatim>\<open>doQuit\<close> set, the loop returns 0 at
  once, whatever the stream still holds: no packet is read, decoded or played. When
  \<^verbatim>\<open>play\<close> has returned 0 the pass is not repeated and the thread returns with mode
  FINISHED and result OK, whatever sessions could follow. In every run of the thread in
  which the quit is seen, all that follows it is the teardown of \<^verbatim>\<open>finish\<close> (and requests
  arriving meanwhile): nothing is written to the device and nothing is finalized.
\<close>

theorem quit_observed_finishes:
  "(doQuit q \<longrightarrow> playLoop s rs q = Inr ([QuitSeen], 0, q))
   \<and> (openStream s p = Inr (eo, True, po) \<and> openFilter (filt s) po = (True, pf)
        \<and> openDevice s pf = (ed, True, pd) \<and> play s pd = Inr (el, 0, pl) \<longrightarrow>
      (\<exists>et pt. BarPlayerThread (s # ss) p = Inr (eo @ ed @ el @ et, PLAYER_RET_OK, pt)
         \<and> mode pt = PLAYER_FINISHED \<and> (\<forall>e\<in>set et. teardown_event e)))
   \<and> (BarPlayerThread ts pa = Inr (es, pret, pa') \<and> QuitSeen \<in> set es \<longrightarrow>
        pret = PLAYER_RET_OK \<and> mode pa' = PLAYER_FINISHED \<and> doQuit pa'
        \<and> (\<exists>pre post. es = pre @ QuitSeen # post \<and> (\<forall>e\<in>set post. teardown_event e)
              \<and> sink post = []))"
proof -
  have a: "playLoop s rs q = Inr ([QuitSeen], 0, q)" if "doQuit q"
    using that by (cases rs) simp_all
  have b: "\<exists>et pt. BarPlayerThread (s # ss) p = Inr (eo @ ed @ el @ et, PLAYER_RET_OK, pt)
         \<and> mode pt = PLAYER_FINISHED \<and> (\<forall>e\<in>set et. teardown_event e)"
    if o: "openStream s p = Inr (eo, True, po)" and f: "openFilter (filt s) po = (True, pf)"
      and d: "openDevice s pf = (ed, True, pd)" and l: "play s pd = Inr (el, 0, pl)"
  proof -
    obtain et pt where fin: "finish s pl = (et, pt)" by (cases "finish s pl") blast
    from l have "playLoop s (reads s) pd = Inr (el, 0, pl)"
      by (simp add: play_def split: if_splits)
    from playLoop_ret [OF this] have "doQuit pl" by simp
    with finish_quit [OF fin] have "doQuit pt" by simp
    then have nf: "finalize (pt\<lparr>mode := PLAYER_FINISHED\<rparr>) = []" by (simp add: finalize_def)
    from o f d l fin invalid_negative(2)
    have "attempt s PLAYER_RET_OK p = Inr (eo @ ed @ el @ et, False, PLAYER_RET_OK, pt)"
      by (simp add: attempt_def)
    then have "BarPlayerThread (s # ss) p
        = Inr (eo @ ed @ el @ et, PLAYER_RET_OK, pt\<lparr>mode := PLAYER_FINISHED\<rparr>)"
      using nf by (simp add: BarPlayerThread_def)
    with finish_quiet [OF fin] show ?thesis by auto
  qed
  have c: "pret = PLAYER_RET_OK \<and> mode pa' = PLAYER_FINISHED \<and> doQuit pa'
        \<and> (\<exists>pre post. es = pre @ QuitSeen # post \<and> (\<forall>e\<in>set post. teardown_event e)
              \<and> sink post = [])"
    if run: "BarPlayerThread ts pa = Inr (es, pret, pa')" and seen: "QuitSeen \<in> set es"
  proof -
    from thread_quit_seen [OF run seen] obtain pre post where
      *: "pret = PLAYER_RET_OK" "doQuit pa'" "es = pre @ QuitSeen # post"
      "\<forall>e\<in>set post. teardown_event e" by blast
    from *(4) teardown_quiet(5) have "sink post = []" by (auto intro: sink_quiet)
    with * thread_mode [OF run] show ?thesis by blast
  qed
  from a b c show ?thesis by blast
qed

theorem quit_observed_finishes_witness:
  "\<exists>es p' pre post.
     BarPlayerThread
       [demo_session [(demo_read 0)\<lparr>rd_decodes := [demo_decode [RequestQuit] 100]\<rparr>,
                      demo_read 1024]]
       demo_player = Inr (es, PLAYER_RET_OK, p')
     \<and> QuitSeen \<in> set es \<and> mode p' = PLAYER_FINISHED \<and> doQuit p'
     \<and> es = pre @ QuitSeen # post \<and> sink post = [] \<and> sink es = [4096]
     \<and> reads_done es = 1"
proof -
  let ?ss = "[demo_session [(demo_read 0)\<lparr>rd_decodes := [demo_decode [RequestQuit] 100]\<rparr>,
                      demo_read 1024]]"
  obtain es pret p' where run: "BarPlayerThread ?ss demo_player = Inr (es, pret, p')"
    by (simp add: demo_defs run_defs)
  have seen: "QuitSeen \<in> set es" and sk: "sink es = [4096]" and rd: "reads_done es = 1"
    using run
    by (auto simp: demo_defs run_defs sink_def ao_bytes_def reads_done_def is_read_def)
  from quit_observed_finishes [where ts = ?ss and pa = demo_player and es = es and pret = pret
      and pa' = p'] run seen
  have "pret = PLAYER_RET_OK \<and> mode p' = PLAYER_FINISHED \<and> doQuit p'
        \<and> (\<exists>pre post. es = pre @ QuitSeen # post \<and> (\<forall>e\<in>set post. teardown_event e)
              \<and> sink post = [])"
    by blast
  with run seen sk rd show ?thesis by blast
qed

text \<open>
  C10. When \<^verbatim>\<open>avcodec_decode_audio4\<close> reports an error, the decoder loop for that packet
  ends there, whatever remains of the packet: the failing call is the last decoder event
  of the packet and nothing of it is played afterwards. The loop of \<^verbatim>\<open>play\<close> then goes
  on with the next iteration exactly as after a packet that decoded well. So the value
  \<^verbatim>\<open>play\<close> returns is 0 after a quit or the negative result of a packet read, never a
  decoder's; a pass of the retry loop is repeated exactly when a read returned the
  corrupted-data code; and a pass that changes the result code never called the decoder.
\<close>

theorem decode_error_skips_packet:
  "(decoded d < 0 \<longrightarrow>
      decodeLoop (d # ds) sz q
        = Inr (DecodeAudio (decoded d) # map Ctl (dc_ctl d), requests (dc_ctl d) q))
   \<and> (decodeLoop dl n qa = Inr (ea, qa') \<and> DecodeAudio m \<in> set ea \<and> m < 0 \<longrightarrow>
        (\<exists>pre cs. ea = pre @ DecodeAudio m # map Ctl cs))
   \<and> (\<not> doQuit p \<and> 0 \<le> rd_ret r \<and> stream_index (rd_pkt r) = streamIdx p
        \<and> pauseGate (rd_wakes r)
             ((requests (rd_ctl r) (p\<lparr>ping := rd_now r\<rparr>))\<lparr>pkt_write := rd_pkt r\<rparr>)
            = Inr (eg, pg)
        \<and> decodeLoop (rd_decodes r) (pkt_size (rd_pkt r)) pg = Inr (ed, pd) \<longrightarrow>
      playLoop s (r # rs) p =
        emit ([Ping (rd_now r), ReadFrame (rd_ret r) (rd_pkt r)] @ map Ctl (rd_ctl r)
              @ tee s ((requests (rd_ctl r) (p\<lparr>ping := rd_now r\<rparr>))\<lparr>pkt_write := rd_pkt r\<rparr>)
                  (rd_pkt r)
              @ eg @ ed)
          (playLoop s rs (pd\<lparr>lastTimestamp := pts (rd_pkt r)\<rparr>)))
   \<and> (playLoop s rl pl = Inr (el, ret, pl') \<longrightarrow>
        (ret = 0 \<and> last el = QuitSeen) \<or> (ret < 0 \<and> (\<exists>k. ReadFrame ret k \<in> set el)))
   \<and> (attempt s pret pt = Inr (et, retry, pret', pt') \<longrightarrow>
        (retry \<longleftrightarrow> (\<exists>k. ReadFrame AVERROR_INVALIDDATA k \<in> set et))
        \<and> (pret' \<noteq> pret \<longrightarrow> (\<forall>e\<in>set et. \<not> is_decode e)))"
proof -
  have a: "decodeLoop (d # ds) sz q
        = Inr (DecodeAudio (decoded d) # map Ctl (dc_ctl d), requests (dc_ctl d) q)"
    if "decoded d < 0"
    using that by (simp add: Let_def)
  have c: "playLoop s (r # rs) p =
        emit ([Ping (rd_now r), ReadFrame (rd_ret r) (rd_pkt r)] @ map Ctl (rd_ctl r)
              @ tee s ((requests (rd_ctl r) (p\<lparr>ping := rd_now r\<rparr>))\<lparr>pkt_write := rd_pkt r\<rparr>)
                  (rd_pkt r)
              @ eg @ ed)
          (playLoop s rs (pd\<lparr>lastTimestamp := pts (rd_pkt r)\<rparr>))"
    if "\<not> doQuit p" "0 \<le> rd_ret r" "stream_index (rd_pkt r) = streamIdx p"
      "pauseGate (rd_wakes r)
             ((requests (rd_ctl r) (p\<lparr>ping := rd_now r\<rparr>))\<lparr>pkt_write := rd_pkt r\<rparr>)
            = Inr (eg, pg)"
      "decodeLoop (rd_decodes r) (pkt_size (rd_pkt r)) pg = Inr (ed, pd)"
  proof -
    have "streamIdx (requests (rd_ctl r) (p\<lparr>ping := rd_now r\<rparr>)) = streamIdx p"
      by (simp add: requests_eq)
    with that show ?thesis by (simp add: Let_def)
  qed
  have e: "(ret = 0 \<and> last el = QuitSeen) \<or> (ret < 0 \<and> (\<exists>k. ReadFrame ret k \<in> set el))"
    if "playLoop s rl pl = Inr (el, ret, pl')"
    using playLoop_ret [OF that] by blast
  from a c e decodeLoop_error_last [of dl n qa ea qa' m]
    attempt_retry_iff [of s pret pt et retry pret' pt']
    attempt_decode [of s pret pt et retry pret' pt']
  show ?thesis by blast
qed

theorem decode_error_skips_packet_witness:
  "\<exists>es p'.
     BarPlayerThread
       [demo_session
          [(demo_read 0)\<lparr>rd_decodes := [demo_decode [] (- 1), demo_decode [] 100]\<rparr>,
           demo_read 1024, failed_read AVERROR_EOF]]
       demo_player = Inr (es, PLAYER_RET_OK, p')
     \<and> sink es = [4096] \<and> reads_done es = 3 \<and> opens es = 1
     \<and> filter is_decode es = [DecodeAudio (- 1), DecodeAudio 100]
     \<and> decodeLoop [demo_decode [] (- 1), demo_decode [] 100] 100 demo_player
        = Inr ([DecodeAudio (- 1)], demo_player)"
proof -
  let ?ss = "[demo_session
          [(demo_read 0)\<lparr>rd_decodes := [demo_decode [] (- 1), demo_decode [] 100]\<rparr>,
           demo_read 1024, failed_read AVERROR_EOF]]"
  obtain es p' where run: "BarPlayerThread ?ss demo_player = Inr (es, PLAYER_RET_OK, p')"
    by (simp add: demo_defs run_defs)
  have facts: "sink es = [4096]" "reads_done es = 3" "opens es = 1"
    "filter is_decode es = [DecodeAudio (- 1), DecodeAudio 100]"
    using run
    by (auto simp: demo_defs run_defs sink_def ao_bytes_def reads_done_def is_read_def
        opens_def is_open_def is_decode_def)
  have neg: "decoded (demo_decode [] (- 1)) < 0" by (simp add: demo_defs)
  from decode_error_skips_packet [where d = "demo_decode [] (- 1)" and ds = "[demo_decode [] 100]"
      and sz = 100 and q = demo_player] neg
  have "decodeLoop [demo_decode [] (- 1), demo_decode [] 100] 100 demo_player
        = Inr ([DecodeAudio (- 1)], demo_player)"
    by (simp add: demo_defs)
  with run facts show ?thesis by blast
qed

subsection \<open>The retry\<close>

lemma attempt_retry_state:
  assumes "attempt s pret p = Inr (es, True, pret', p')"
  shows "pret' = pret"
    and "\<exists>pre. es = pre @ map Ctl (close_ctl s) @ [AoClose, GraphFree, CodecClose, CloseInput]"
    and "\<not> fctx p'" "\<not> st p'" "\<not> fgraph p'" "\<not> aoDev p'"
    and "lastTimestamp p' = resume_point (lastTimestamp p) (selected_reads (best_stream s) es)"
proof -
  have "pret' = pret
    \<and> (\<exists>pre. es = pre @ map Ctl (close_ctl s) @ [AoClose, GraphFree, CodecClose, CloseInput])
    \<and> \<not> fctx p' \<and> \<not> st p' \<and> \<not> fgraph p' \<and> \<not> aoDev p'
    \<and> lastTimestamp p' = resume_point (lastTimestamp p) (selected_reads (best_stream s) es)"
    using assms
  proof (cases rule: attempt_cases)
    case failed
    then show ?thesis by simp
  next
    case (played e1 p1 p3 e4 ret p4 e5)
    from played(2) openStream_ok_state(3) [OF played(1)]
    have idx: "streamIdx p3 = best_stream s" by (simp add: static_def)
    have "selected_reads (best_stream s) e1 = []"
      using openStream_alphabet(1) [OF played(1)] open_event_quiet(4)
      by (auto intro: selected_reads_quiet)
    moreover have "selected_reads (best_stream s) e5 = []"
      using finish_quiet [OF played(6)] teardown_quiet(7)
      by (auto intro: selected_reads_quiet)
    ultimately have sr: "selected_reads (best_stream s) es = selected_reads (best_stream s) e4"
      unfolding played(7) by (simp add: selected_reads_simps packet_read_def)
    from playLoop_state [OF played(5)] idx played(3)
    have "lastTimestamp p4 = resume_point (lastTimestamp p) (selected_reads (best_stream s) e4)"
      by simp
    with sr finish_facts(3) [OF played(6)]
    have lt: "lastTimestamp p' = resume_point (lastTimestamp p) (selected_reads (best_stream s) es)"
      by simp
    have "es = (e1 @ [AoOpenLive] @ e4) @ map Ctl (close_ctl s) @ [AoClose, GraphFree, CodecClose, CloseInput]"
      using played(7,8) by simp
    then have "\<exists>pre. es = pre @ map Ctl (close_ctl s) @ [AoClose, GraphFree, CodecClose, CloseInput]"
      by blast
    with lt played(10) finish_closed(1-4) [OF played(6)] show ?thesis by simp
  qed
  then show "pret' = pret"
    and "\<exists>pre. es = pre @ map Ctl (close_ctl s) @ [AoClose, GraphFree, CodecClose, CloseInput]"
    and "\<not> fctx p'" "\<not> st p'" "\<not> fgraph p'" "\<not> aoDev p'"
    and "lastTimestamp p' = resume_point (lastTimestamp p) (selected_reads (best_stream s) es)"
    by simp_all
qed

lemma openStream_total:
  assumes "\<not> fctx p" and "0 \<le> open_input_ret s" "0 \<le> stream_info_ret s" "0 \<le> best_stream s"
    "decoder_found s" "0 \<le> codec_open_ret s"
  shows "\<exists>es p'. openStream s p = Inr (es, True, p')"
  using assms
  by (cases "0 < lastTimestamp p")
    (auto simp: openStream_def Let_def requests_eq split: prod.splits)

lemma failing_stream_attempt:
  assumes "\<not> fctx p" "\<not> doQuit p" "e < 0"
  shows "\<exists>es p'. attempt (demo_session [failed_read e]) pret p
           = Inr (es, e = AVERROR_INVALIDDATA, pret, p')
         \<and> \<not> fctx p' \<and> \<not> doQuit p' \<and> opens es = 1"
proof -
  let ?s = "demo_session [failed_read e]"
  have s: "open_ctl ?s = []" "close_ctl ?s = []" "filt ?s = demo_filter" "ao_open_ok ?s"
    "frames_alloc_ok ?s" "reads ?s = [failed_read e]" "0 \<le> open_input_ret ?s"
    "0 \<le> stream_info_ret ?s" "0 \<le> best_stream ?s" "decoder_found ?s" "0 \<le> codec_open_ret ?s"
    by (simp_all add: demo_session_def)
  from openStream_total [OF assms(1) s(7-11)] obtain e1 p1
    where o: "openStream ?s p = Inr (e1, True, p1)" by blast
  from openStream_quit(1) [OF o] openStream_ok [OF o] s(1)
  have q1: "\<not> doQuit p1" using assms(2) openRecording_fields(6) by auto
  have f: "openFilter (filt ?s) p1 = (True, p1\<lparr>fgraph := True\<rparr>)"
    by (simp add: s(3) openFilter_def demo_filter_def)
  have d: "openDevice ?s (p1\<lparr>fgraph := True\<rparr>)
      = ([AoOpenLive], True, p1\<lparr>fgraph := True, aoDev := True\<rparr>)"
    by (simp add: openDevice_def s(4))
  let ?p3 = "p1\<lparr>fgraph := True, aoDev := True\<rparr>"
  have r: "rd_now (failed_read e) = 6" "rd_ctl (failed_read e) = []"
    "rd_ret (failed_read e) = e" "rd_pkt (failed_read e) = demo_packet 0"
    by (simp_all add: failed_read_def)
  have "playLoop ?s [failed_read e] ?p3
      = Inr ([Ping 6, ReadFrame e (demo_packet 0)], e, ?p3\<lparr>ping := 6\<rparr>)"
    using q1 assms(3) by (simp add: r)
  then have l: "play ?s ?p3
      = Inr ([Ping 6, ReadFrame e (demo_packet 0)], e, ?p3\<lparr>ping := 6\<rparr>)"
    unfolding play_def s(6) using s(5) by simp
  obtain e5 p5 where fin: "finish ?s (?p3\<lparr>ping := 6\<rparr>) = (e5, p5)"
    by (cases "finish ?s (?p3\<lparr>ping := 6\<rparr>)") blast
  from o f d l fin have a: "attempt ?s pret p
      = Inr (e1 @ [AoOpenLive] @ [Ping 6, ReadFrame e (demo_packet 0)] @ e5,
             e = AVERROR_INVALIDDATA, pret, p5)"
    by (simp add: attempt_def)
  from finish_facts(6) [OF fin] q1 s(2) have "\<not> doQuit p5" by simp
  with a attempt_common(2,3) [OF a] show ?thesis by auto
qed

lemma retries_unbounded:
  assumes "\<not> fctx p" "\<not> doQuit p"
  shows "\<exists>es r. retryLoop (replicate n (demo_session [failed_read AVERROR_INVALIDDATA])
                     @ [demo_session [failed_read AVERROR_EOF]]) pret p = Inr (es, r)
         \<and> opens es = Suc n"
  using assms
proof (induction n arbitrary: p)
  case 0
  have "AVERROR_EOF < 0" "AVERROR_EOF \<noteq> AVERROR_INVALIDDATA"
    by (simp_all add: AVERROR_EOF_def AVERROR_INVALIDDATA_def)
  with failing_stream_attempt [OF 0, of AVERROR_EOF pret] show ?case by auto
next
  case (Suc n)
  from failing_stream_attempt [OF Suc.prems invalid_negative(1), of pret] obtain e1 p1
    where a: "attempt (demo_session [failed_read AVERROR_INVALIDDATA]) pret p
           = Inr (e1, True, pret, p1)" and p1: "\<not> fctx p1" "\<not> doQuit p1" and o: "opens e1 = 1"
    by auto
  from Suc.IH [OF p1] obtain e2 r where
    b: "retryLoop (replicate n (demo_session [failed_read AVERROR_INVALIDDATA])
          @ [demo_session [failed_read AVERROR_EOF]]) pret p1 = Inr (e2, r)"
    and o2: "opens e2 = Suc n" by blast
  from a b have "retryLoop (replicate (Suc n) (demo_session [failed_read AVERROR_INVALIDDATA])
          @ [demo_session [failed_read AVERROR_EOF]]) pret p = Inr (e1 @ e2, r)"
    by (cases r) simp
  with o o2 show ?case by (simp add: opens_simps)
qed


text \<open>
  C2 as stated: after a corrupted-data error the reopened session seeks to the timestamp
  of the previous packet. Line 195 seeks only when \<^verbatim>\<open>lastTimestamp\<close> is positive. Here the
  packet played before the error carries no timestamp (\<^verbatim>\<open>AV_NOPTS_VALUE\<close>, a negative
  number): the stream is opened twice and \<^verbatim>\<open>av_seek_frame\<close> is never called, so the second
  session starts from the beginning of the stream.
\<close>

theorem retry_without_seek_counterexample:
  "opens (trace_of (BarPlayerThread untimed_sessions demo_player)) = 2
   \<and> seeks (trace_of (BarPlayerThread untimed_sessions demo_player)) = []
   \<and> selected_reads 0 (trace_of (BarPlayerThread untimed_sessions demo_player))
       = [demo_packet AV_NOPTS_VALUE]
   \<and> ret_code (BarPlayerThread untimed_sessions demo_player) = Some PLAYER_RET_OK"
  by (simp add: untimed_sessions_def AV_NOPTS_VALUE_def demo_defs run_defs ret_code_def
      trace_of_def opens_def is_open_def seeks_def seek_of_def selected_reads_def
      packet_read_def)

text \<open>
  C2 as the code has it. One pass of the loop of lines 529-544 asks for another pass
  exactly when a packet read returned the corrupted-data error. Then the result code is
  left as it was, the pass ends with the teardown of \<^verbatim>\<open>finish\<close> (device, filter graph,
  decoder and input are closed), \<^verbatim>\<open>lastTimestamp\<close> is the timestamp of the last packet
  processed (or its previous value if none was), and the loop goes on with the next pass
  from that state. A successful \<^verbatim>\<open>openStream\<close> seeks to \<^verbatim>\<open>lastTimestamp\<close>, on the selected
  stream, when it is positive and does not seek otherwise; it reads no packet and leaves
  \<^verbatim>\<open>lastTimestamp\<close> as it is. The number of passes is not bounded: for every \<open>n\<close> there is
  a run of the thread that opens the stream \<open>n + 1\<close> times.
\<close>

theorem corrupted_data_retry:
  "(attempt s pret p = Inr (es, retry, pret', p') \<longrightarrow>
      (retry \<longleftrightarrow> (\<exists>k. ReadFrame AVERROR_INVALIDDATA k \<in> set es))
    \<and> (retry \<longrightarrow>
          pret' = pret
        \<and> (\<exists>pre. es = pre @ map Ctl (close_ctl s) @ [AoClose, GraphFree, CodecClose, CloseInput])
        \<and> \<not> fctx p' \<and> \<not> st p' \<and> \<not> fgraph p' \<and> \<not> aoDev p'
        \<and> lastTimestamp p' = resume_point (lastTimestamp p) (selected_reads (best_stream s) es)
        \<and> retryLoop (s # ss) pret p = emit es (retryLoop ss pret p')))
   \<and> (openStream sn pn = Inr (en, True, pm) \<longrightarrow>
        seeks en = (if 0 < lastTimestamp pn then [(best_stream sn, lastTimestamp pn)] else [])
      \<and> reads_done en = 0 \<and> lastTimestamp pm = lastTimestamp pn)
   \<and> (\<not> fctx pu \<and> \<not> doQuit pu \<longrightarrow>
        (\<exists>sl el r. BarPlayerThread sl pu = Inr (el, r) \<and> opens el = Suc n))"
proof (intro conjI impI)
  assume a: "attempt s pret p = Inr (es, retry, pret', p')"
  from attempt_retry_iff [OF a]
  show "retry \<longleftrightarrow> (\<exists>k. ReadFrame AVERROR_INVALIDDATA k \<in> set es)" .
next
  assume "attempt s pret p = Inr (es, retry, pret', p')" and retry
  then have a: "attempt s pret p = Inr (es, True, pret', p')" by simp
  note r = attempt_retry_state [OF a]
  show "pret' = pret" by (rule r(1))
  show "\<exists>pre. es = pre @ map Ctl (close_ctl s) @ [AoClose, GraphFree, CodecClose, CloseInput]"
    by (rule r(2))
  show "\<not> fctx p'" by (rule r(3))
  show "\<not> st p'" by (rule r(4))
  show "\<not> fgraph p'" by (rule r(5))
  show "\<not> aoDev p'" by (rule r(6))
  show "lastTimestamp p' = resume_point (lastTimestamp p) (selected_reads (best_stream s) es)"
    by (rule r(7))
  from a show "retryLoop (s # ss) pret p = emit es (retryLoop ss pret p')"
    by (simp add: r(1))
next
  assume o: "openStream sn pn = Inr (en, True, pm)"
  show "seeks en = (if 0 < lastTimestamp pn then [(best_stream sn, lastTimestamp pn)] else [])"
    by (rule openStream_ok_state(5) [OF o])
  from openStream_alphabet(1) [OF o] open_event_quiet(1) show "reads_done en = 0"
    by (auto intro: reads_done_quiet)
  from openStream_quit(2) [OF o] show "lastTimestamp pm = lastTimestamp pn" by simp
next
  assume "\<not> fctx pu \<and> \<not> doQuit pu"
  then have pu: "\<not> fctx pu" "\<not> doQuit pu" by simp_all
  from retries_unbounded [OF pu, of n PLAYER_RET_OK] obtain el pret1 p1 where
    "retryLoop (replicate n (demo_session [failed_read AVERROR_INVALIDDATA])
        @ [demo_session [failed_read AVERROR_EOF]]) PLAYER_RET_OK pu = Inr (el, pret1, p1)"
    and "opens el = Suc n" by auto
  then have "BarPlayerThread (replicate n (demo_session [failed_read AVERROR_INVALIDDATA])
        @ [demo_session [failed_read AVERROR_EOF]]) pu
      = Inr (el @ finalize (p1\<lparr>mode := PLAYER_FINISHED\<rparr>), pret1, p1\<lparr>mode := PLAYER_FINISHED\<rparr>)
      \<and> opens (el @ finalize (p1\<lparr>mode := PLAYER_FINISHED\<rparr>)) = Suc n"
    by (simp add: BarPlayerThread_def Let_def opens_simps finalize_events(2))
  then show "\<exists>sl el r. BarPlayerThread sl pu = Inr (el, r) \<and> opens el = Suc n"
    by blast
qed

theorem corrupted_data_retry_witness:
  "\<exists>es p'.
     attempt (demo_session [demo_read 1024, failed_read AVERROR_INVALIDDATA]) PLAYER_RET_OK
       demo_player = Inr (es, True, PLAYER_RET_OK, p')
     \<and> ReadFrame AVERROR_INVALIDDATA (demo_packet 0) \<in> set es
     \<and> \<not> fctx p' \<and> lastTimestamp p' = 1024
     \<and> (\<exists>en pm. openStream (demo_session [failed_read AVERROR_EOF]) p' = Inr (en, True, pm)
           \<and> seeks en = [(0, 1024)] \<and> reads_done en = 0 \<and> lastTimestamp pm = 1024)
     \<and> (\<exists>sl el r. BarPlayerThread sl demo_player = Inr (el, r) \<and> opens el = 4)"
proof -
  let ?s = "demo_session [demo_read 1024, failed_read AVERROR_INVALIDDATA]"
  let ?sn = "demo_session [failed_read AVERROR_EOF]"
  obtain es p' where run: "attempt ?s PLAYER_RET_OK demo_player = Inr (es, True, PLAYER_RET_OK, p')"
    by (simp add: demo_defs run_defs)
  have rd: "ReadFrame AVERROR_INVALIDDATA (demo_packet 0) \<in> set es"
    and sr: "selected_reads (best_stream ?s) es = [demo_packet 1024]"
    using run by (auto simp: demo_defs run_defs selected_reads_def packet_read_def)
  have start: "lastTimestamp demo_player = 0" "\<not> fctx demo_player" "\<not> doQuit demo_player"
    by (simp_all add: demo_player_def)
  have sn: "0 \<le> open_input_ret ?sn" "0 \<le> stream_info_ret ?sn" "0 \<le> best_stream ?sn"
    "decoder_found ?sn" "0 \<le> codec_open_ret ?sn" "best_stream ?sn = 0"
    by (simp_all add: demo_session_def)
  note claim = corrupted_data_retry [where s = "?s" and pret = PLAYER_RET_OK and p = demo_player
      and es = es and retry = True and pret' = PLAYER_RET_OK and p' = p' and sn = "?sn"
      and pn = p' and pu = demo_player and n = 3]
  from claim run sr start have p': "\<not> fctx p'" "lastTimestamp p' = 1024"
    by (simp_all add: resume_point_def demo_packet_def)
  from openStream_total [OF p'(1) sn(1-5)] obtain en pm
    where o: "openStream ?sn p' = Inr (en, True, pm)" by blast
  from claim [of _ en pm] o p'(2) sn(6)
  have "seeks en = [(0, 1024)] \<and> reads_done en = 0 \<and> lastTimestamp pm = 1024" by simp
  moreover from claim start
  have "\<exists>sl el r. BarPlayerThread sl demo_player = Inr (el, r) \<and> opens el = 4" by simp
  ultimately show ?thesis using run rd p' o by blast
qed

subsection \<open>Rescaling\<close>

lemma round_div_near:
  fixes x c :: int
  assumes "0 < c"
  shows "2 * \<bar>c * ((x + c div 2) div c) - x\<bar> \<le> c"
proof -
  define m where "m = (x + c div 2) mod c"
  define h where "h = c div 2"
  define r where "r = (x + h) div c"
  have eq: "c * r + m = x + h"
    unfolding m_def r_def h_def by simp
  have m: "0 \<le> m" "m < c" using assms by (simp_all add: m_def)
  have h: "2 * h \<le> c" "c \<le> 2 * h + 1" unfolding h_def by linarith+
  from eq have "c * r - x = h - m" by simp
  moreover from m h have "2 * \<bar>h - m\<bar> \<le> c" by presburger
  ultimately have "2 * \<bar>c * r - x\<bar> \<le> c" by simp
  then show ?thesis unfolding r_def h_def .
qed

lemma round_div_nonneg:
  fixes x c :: int
  assumes "0 < c" "0 \<le> x"
  shows "0 \<le> (x + c div 2) div c"
proof -
  from assms have "0 \<le> x + c div 2" by simp
  with assms(1) show ?thesis by (simp add: pos_imp_zdiv_nonneg_iff)
qed

lemma round_div_less:
  fixes x c k :: int
  assumes "0 < c" "x \<le> k * c"
  shows "(x + c div 2) div c \<le> k"
proof -
  define y where "y = x + c div 2"
  have "c div 2 < c" using assms(1) by simp
  with assms(2) have lt: "y < c * (k + 1)" by (simp add: y_def algebra_simps)
  have "c * (y div c) + y mod c = y" by simp
  moreover have "0 \<le> y mod c" using assms(1) by simp
  ultimately have le: "c * (y div c) \<le> y" by linarith
  have "y div c < k + 1"
  proof (rule ccontr)
    assume "\<not> y div c < k + 1"
    then have "k + 1 \<le> y div c" by simp
    with assms(1) have "c * (k + 1) \<le> c * (y div c)" by (simp add: mult_left_mono)
    with le lt show False by linarith
  qed
  then show ?thesis unfolding y_def by simp
qed

text \<open>The value of \<open>av_rescale_q\<close> is a 64-bit integer.\<close>

lemma av_rescale_q_int64:
  "- (2 ^ 63) \<le> av_rescale_q a bq cq \<and> av_rescale_q a bq cq < 2 ^ 63"
proof -
  define b where "b = fst bq * snd cq"
  define c where "c = fst cq * snd bq"
  show ?thesis
  proof (cases "c \<le> 0 \<or> b < 0")
    case True
    then show ?thesis unfolding av_rescale_q_def Let_def b_def c_def by simp
  next
    case False
    then have c: "0 < c" and b: "0 \<le> b" by simp_all
    show ?thesis
    proof (cases "a < 0")
      case True
      define r where "r = (- max a (- (2 ^ 63 - 1)) * b + c div 2) div c"
      have "0 \<le> - max a (- (2 ^ 63 - 1))" using True by simp
      from this b have "0 \<le> - max a (- (2 ^ 63 - 1)) * b" by (rule mult_nonneg_nonneg)
      from round_div_nonneg [OF c this] have r: "0 \<le> r" unfolding r_def .
      have "av_rescale_q a bq cq = (if 2 ^ 63 - 1 < r then - (2 ^ 63) else - r)"
        using True False unfolding av_rescale_q_def Let_def b_def c_def r_def by simp
      with r show ?thesis by simp
    next
      case nn: False
      define r where "r = (a * b + c div 2) div c"
      from nn b have "0 \<le> a * b" by simp
      from round_div_nonneg [OF c this] have r: "0 \<le> r" unfolding r_def .
      have "av_rescale_q a bq cq = (if 2 ^ 63 - 1 < r then - (2 ^ 63) else r)"
        using nn False unfolding av_rescale_q_def Let_def b_def c_def r_def by simp
      with r show ?thesis by simp
    qed
  qed
qed

text \<open>Where the value fits, it is the nearest integer, halves away from zero.\<close>

lemma rescalable_int:
  assumes "time_base bq" "time_base cq" "rescalable bq cq a"
  shows "\<bar>a\<bar> * (fst bq * snd cq) \<le> (2 ^ 63 - 1) * (fst cq * snd bq)"
proof -
  define b where "b = fst bq * snd cq"
  define c where "c = fst cq * snd bq"
  from assms(1,2) have c: "0 < c" and b: "0 < b" by (simp_all add: b_def c_def time_base_def)
  then have c': "0 < (of_int c :: rat)" and b': "0 < (of_int b :: rat)" by simp_all
  have e: "of_int a * q2rat bq / q2rat cq = (of_int (a * b) :: rat) / of_int c"
    using assms(1,2) by (simp add: q2rat_def b_def c_def time_base_def field_simps)
  from assms(3) have "\<bar>(of_int (a * b) :: rat) / of_int c\<bar> \<le> 2 ^ 63 - 1"
    unfolding rescalable_def e by simp
  then have "(of_int \<bar>a * b\<bar> :: rat) / of_int c \<le> 2 ^ 63 - 1"
    using c' by simp
  then have "(of_int \<bar>a * b\<bar> :: rat) \<le> (2 ^ 63 - 1) * of_int c"
    using c' by (simp add: pos_divide_le_eq)
  then have "(of_int \<bar>a * b\<bar> :: rat) \<le> of_int ((2 ^ 63 - 1) * c)" by simp
  then have "\<bar>a * b\<bar> \<le> (2 ^ 63 - 1) * c" by (simp only: of_int_le_iff)
  moreover have "\<bar>a * b\<bar> = \<bar>a\<bar> * b" using b by (simp add: abs_mult)
  ultimately show ?thesis unfolding b_def c_def by simp
qed

lemma av_rescale_q_fits:
  assumes "time_base bq" "time_base cq" "rescalable bq cq a"
  shows "av_rescale_q a bq cq
     = (if a < 0 then - ((- a * (fst bq * snd cq) + fst cq * snd bq div 2) div (fst cq * snd bq))
        else (a * (fst bq * snd cq) + fst cq * snd bq div 2) div (fst cq * snd bq))"
proof -
  define b where "b = fst bq * snd cq"
  define c where "c = fst cq * snd bq"
  from assms(1,2) have c: "0 < c" and b: "0 < b" by (simp_all add: b_def c_def time_base_def)
  from rescalable_int [OF assms] have le: "\<bar>a\<bar> * b \<le> (2 ^ 63 - 1) * c"
    unfolding b_def c_def .
  from assms(3) have a: "- (2 ^ 63) < a" by (simp add: rescalable_def)
  show ?thesis
  proof (cases "a < 0")
    case True
    from a have m: "max a (- (2 ^ 63 - 1)) = a" by simp
    from True le have "- a * b \<le> (2 ^ 63 - 1) * c" by simp
    from round_div_less [OF c this] have "\<not> 2 ^ 63 - 1 < (- a * b + c div 2) div c" by simp
    with True c b show ?thesis
      unfolding av_rescale_q_def Let_def m b_def [symmetric] c_def [symmetric] by simp
  next
    case False
    with le have "a * b \<le> (2 ^ 63 - 1) * c" by simp
    from round_div_less [OF c this] have "\<not> 2 ^ 63 - 1 < (a * b + c div 2) div c" by simp
    with False c b show ?thesis
      unfolding av_rescale_q_def Let_def b_def [symmetric] c_def [symmetric] by simp
  qed
qed

lemma av_rescale_q_near_int:
  assumes "time_base bq" "time_base cq" "rescalable bq cq a"
  shows "2 * \<bar>(fst cq * snd bq) * av_rescale_q a bq cq - a * (fst bq * snd cq)\<bar>
           \<le> fst cq * snd bq"
proof -
  define b where "b = fst bq * snd cq"
  define c where "c = fst cq * snd bq"
  from assms(1,2) have c: "0 < c" and b: "0 < b" by (simp_all add: b_def c_def time_base_def)
  have r: "av_rescale_q a bq cq
      = (if a < 0 then - ((- a * b + c div 2) div c) else (a * b + c div 2) div c)"
    unfolding av_rescale_q_fits [OF assms] b_def c_def ..
  have "2 * \<bar>c * av_rescale_q a bq cq - a * b\<bar> \<le> c"
  proof (cases "a < 0")
    case False
    with round_div_near [OF c, of "a * b"] show ?thesis unfolding r by simp
  next
    case True
    define q where "q = (- a * b + c div 2) div c"
    from round_div_near [OF c, of "- a * b"]
    have "2 * \<bar>c * q - (- a * b)\<bar> \<le> c" unfolding q_def .
    moreover have "\<bar>c * (- q) - a * b\<bar> = \<bar>- (c * q - (- a * b))\<bar>"
      by (rule arg_cong [where f = abs]) simp
    moreover have "\<bar>- (c * q - (- a * b))\<bar> = \<bar>c * q - (- a * b)\<bar>" by (rule abs_minus)
    ultimately have "2 * \<bar>c * (- q) - a * b\<bar> \<le> c" by (simp only:)
    with True show ?thesis unfolding r q_def by simp
  qed
  then show ?thesis unfolding b_def c_def .
qed

lemma av_rescale_q_near:
  assumes "time_base bq" "time_base cq" "rescalable bq cq a"
  shows "\<bar>of_int (av_rescale_q a bq cq) - of_int a * q2rat bq / q2rat cq\<bar> \<le> (1 / 2 :: rat)"
proof -
  define b where "b = fst bq * snd cq"
  define c where "c = fst cq * snd bq"
  define r where "r = av_rescale_q a bq cq"
  define d where "d = c * r - a * b"
  from assms(1,2) have c: "0 < c" by (simp add: c_def time_base_def)
  then have c': "0 < (of_int c :: rat)" by simp
  have e: "of_int a * q2rat bq / q2rat cq = (of_int (a * b) :: rat) / of_int c"
    using assms(1,2) by (simp add: q2rat_def b_def c_def time_base_def field_simps)
  have "(of_int c :: rat) * of_int r - of_int (a * b) = of_int d"
    unfolding d_def by simp
  then have "(of_int r :: rat) - of_int (a * b) / of_int c = of_int d / of_int c"
    using c' by (simp add: field_simps)
  then have "\<bar>(of_int r :: rat) - of_int (a * b) / of_int c\<bar> = of_int \<bar>d\<bar> / of_int c"
    using c' by simp
  also have "\<dots> \<le> 1 / 2"
  proof -
    from av_rescale_q_near_int [OF assms] have "2 * \<bar>d\<bar> \<le> c"
      unfolding d_def r_def b_def c_def .
    then have "(of_int (2 * \<bar>d\<bar>) :: rat) \<le> of_int c" by (simp only: of_int_le_iff)
    then have "2 * (of_int \<bar>d\<bar> :: rat) \<le> of_int c" by simp
    with c' show ?thesis by (simp add: field_simps)
  qed
  finally show ?thesis unfolding e r_def .
qed

lemma av_rescale_q_mono:
  assumes "time_base bq" "time_base cq" "rescalable bq cq a" "rescalable bq cq a'"
    and "a \<le> a'"
  shows "av_rescale_q a bq cq \<le> av_rescale_q a' bq cq"
proof -
  define b where "b = fst bq * snd cq"
  define c where "c = fst cq * snd bq"
  from assms(1,2) have c: "0 < c" and b: "0 < b" by (simp_all add: b_def c_def time_base_def)
  have r: "av_rescale_q a bq cq
      = (if a < 0 then - ((- a * b + c div 2) div c) else (a * b + c div 2) div c)"
    unfolding av_rescale_q_fits [OF assms(1,2,3)] b_def c_def ..
  have r': "av_rescale_q a' bq cq
      = (if a' < 0 then - ((- a' * b + c div 2) div c) else (a' * b + c div 2) div c)"
    unfolding av_rescale_q_fits [OF assms(1,2,4)] b_def c_def ..
  have pos: "0 \<le> (x * b + c div 2) div c" if "0 \<le> x" for x
  proof -
    from that b have "0 \<le> x * b" by simp
    from round_div_nonneg [OF c this] show ?thesis .
  qed
  have mono: "(x * b + c div 2) div c \<le> (y * b + c div 2) div c" if "x \<le> y" for x y
  proof -
    from that b have "x * b \<le> y * b" by (simp add: mult_right_mono)
    then have "x * b + c div 2 \<le> y * b + c div 2" by simp
    from this c show ?thesis by (rule zdiv_mono1)
  qed
  consider "a' < 0" | "a < 0" "0 \<le> a'" | "0 \<le> a" using assms(5) by linarith
  then show ?thesis
  proof cases
    case 1
    with assms(5) have "a < 0" by simp
    moreover from assms(5) have "- a' \<le> - a" by simp
    from mono [OF this] have "(- a' * b + c div 2) div c \<le> (- a * b + c div 2) div c" .
    ultimately show ?thesis using 1 unfolding r r' by simp
  next
    case 2
    from pos [of "- a"] 2(1) have "0 \<le> (- a * b + c div 2) div c" by simp
    moreover from pos [OF 2(2)] have "0 \<le> (a' * b + c div 2) div c" .
    ultimately show ?thesis using 2 unfolding r r' by simp
  next
    case 3
    with assms(5) have "0 \<le> a'" by simp
    with 3 mono [OF assms(5)] show ?thesis unfolding r r' by simp
  qed
qed

text \<open>A packet without a timestamp, from a 44100 Hz codec into a 90 kHz container.\<close>

lemma av_rescale_q_no_pts:
  "av_rescale_q AV_NOPTS_VALUE (1, 44100) (1, 90000) = - (2 ^ 63)"
  by (simp add: av_rescale_q_def AV_NOPTS_VALUE_def Let_def)

lemma sorted_map_mono_on:
  fixes f :: "int \<Rightarrow> int"
  assumes "sorted (map g xs)" and "list_all (\<lambda>x. P (g x)) xs"
    and "\<And>a b. P a \<Longrightarrow> P b \<Longrightarrow> a \<le> b \<Longrightarrow> f a \<le> f b"
  shows "sorted (map (\<lambda>x. f (g x)) xs)"
  using assms(1,2)
proof (induction xs)
  case Nil
  show ?case by simp
next
  case (Cons x xs)
  from Cons.prems have "\<forall>y\<in>set xs. g x \<le> g y" "P (g x)" "\<forall>y\<in>set xs. P (g y)"
    by (auto simp: list_all_iff)
  with assms(3) have "\<forall>y\<in>set xs. f (g x) \<le> f (g y)" by blast
  moreover from Cons have "sorted (map (\<lambda>x. f (g x)) xs)" by simp
  ultimately show ?case by simp
qed

lemma attempt_written:
  assumes "attempt s pret p = Inr (es, retry, pret', p')" and "save_file p'"
  shows "written es
    = map (\<lambda>k. (new_stream_id s,
                 rescale_q s (pts k) (codec_time_base s 0) (write_header s (st_time_base s)),
                 rescale_q s (dts k) (codec_time_base s 0) (write_header s (st_time_base s))))
        (selected_reads (best_stream s) es)"
  using assms(1)
proof (cases rule: attempt_cases)
  case failed
  from failed(3) setup_event_quiet(6,7) have "written es = []"
    "selected_reads (best_stream s) es = []"
    by (auto intro: written_quiet selected_reads_quiet)
  then show ?thesis by simp
next
  case (played e1 p1 p3 e4 ret p4 e5)
  let ?tb = "write_header s (st_time_base s)"
  let ?oc = "\<lparr>oc_path = tmp_filename p1, ost_id = new_stream_id s, ost_time_base = ?tb\<rparr>"
  from finish_facts(2) [OF played(6)] playLoop_frame [OF played(5)] played(2) assms(2)
  have sf: "save_file p3" "save_file p1" "ofcx p3 = ofcx p1" "streamIdx p3 = streamIdx p1"
    by (simp_all add: static_def same_but_play_def)
  from openStream_ok_state(6) [OF played(1) sf(2)] sf(3) have oc: "ofcx p3 = Some ?oc" by simp
  from openStream_ok_state(3) [OF played(1)] sf(4) have idx: "streamIdx p3 = best_stream s"
    by simp
  have tee: "\<And>k. written (tee s p3 k)
      = [(new_stream_id s, rescale_q s (pts k) (codec_time_base s 0) ?tb,
          rescale_q s (dts k) (codec_time_base s 0) ?tb)]"
    unfolding tee_recording [OF sf(1) oc] by (simp add: written_simps frame_written_def)
  have e1: "written e1 = []" "selected_reads (best_stream s) e1 = []"
    using openStream_alphabet(1) [OF played(1)] open_event_quiet(3,4)
    by (auto intro: written_quiet selected_reads_quiet)
  have e5: "written e5 = []" "selected_reads (best_stream s) e5 = []"
    using finish_quiet [OF played(6)] teardown_quiet(6,7)
    by (auto intro: written_quiet selected_reads_quiet)
  have es: "written es = written e4"
    "selected_reads (best_stream s) es = selected_reads (best_stream s) e4"
    unfolding played(7) using e1 e5
    by (simp_all add: written_simps selected_reads_simps frame_written_def packet_read_def)
  from playLoop_written [OF played(5)] idx
  have "written e4 = concat (map (\<lambda>k. written (tee s p3 k)) (selected_reads (best_stream s) e4))"
    by simp
  then show ?thesis unfolding es tee by (simp add: concat_map_singleton)
qed

text \<open>
  C4 as stated: every timestamp written is the rational value of the rescaling, exactly.
  The timestamps of the container are 64-bit integers, and \<^verbatim>\<open>av_rescale_q\<close> rounds. Here
  the selected stream is the first one, its codec counts in thirds and the container in
  halves: the packets with timestamps 1 and 2, that is 2/3 and 4/3 on the scale of the
  container, are both written with timestamp 1, in a recording that is completed and
  finalized.
\<close>

theorem rounded_timestamp_counterexample:
  "written (trace_of (BarPlayerThread [coarse_session] demo_player)) = [(0, 1, 1), (0, 1, 1)]
   \<and> selected_reads 0 (trace_of (BarPlayerThread [coarse_session] demo_player))
       = [demo_packet 1, demo_packet 2]
   \<and> best_stream coarse_session = 0
   \<and> of_int (pts (demo_packet 1)) * q2rat (codec_time_base coarse_session 0)
         / q2rat (write_header coarse_session (st_time_base coarse_session)) = (2 / 3 :: rat)
   \<and> of_int (pts (demo_packet 2)) * q2rat (codec_time_base coarse_session 0)
         / q2rat (write_header coarse_session (st_time_base coarse_session)) = (4 / 3 :: rat)
   \<and> ret_code (BarPlayerThread [coarse_session] demo_player) = Some PLAYER_RET_OK
   \<and> WriteTrailer \<in> set (trace_of (BarPlayerThread [coarse_session] demo_player))"
  by (simp add: coarse_session_def demo_defs run_defs ret_code_def trace_of_def written_def
      frame_written_def selected_reads_def packet_read_def q2rat_def)

text \<open>
  C4 as the code has it, for an input whose selected stream is its first stream (the
  stream whose codec time base line 410 reads). In one pass of the thread with recording on,
  the packets written are those read on the selected stream, in order, one for one, on the
  stream of the container, with \<^verbatim>\<open>pts\<close> and \<^verbatim>\<open>dts\<close> given by the library's rescaling from
  the codec time base of the selected stream to the time base of the container's stream
  after the header is written. With \<^verbatim>\<open>av_rescale_q\<close>, every timestamp written is a 64-bit
  integer; for a source timestamp that is present and whose rescaled value is within the
  64-bit range it is within one half of the rational value
  \<open>pts * sourceTimeBase / destTimeBase\<close>: it is computed from the source timestamp alone,
  so no error accumulates. When all source timestamps are such and non-decreasing, the
  timestamps written are non-decreasing.
\<close>

theorem recorded_timestamps:
  "attempt s pret p = Inr (es, retry, pret', p') \<and> save_file p' \<and> best_stream s = 0
     \<and> src = codec_time_base s (best_stream s) \<and> tb = write_header s (st_time_base s)
   \<longrightarrow>
     written es
       = map (\<lambda>k. (new_stream_id s, rescale_q s (pts k) src tb, rescale_q s (dts k) src tb))
           (selected_reads (best_stream s) es)
   \<and> (rescale_q s = av_rescale_q \<and> time_base src \<and> time_base tb \<longrightarrow>
        list_all2
          (\<lambda>w k. - (2 ^ 63) \<le> fst (snd w) \<and> fst (snd w) < 2 ^ 63
               \<and> - (2 ^ 63) \<le> snd (snd w) \<and> snd (snd w) < 2 ^ 63
               \<and> (rescalable src tb (pts k) \<longrightarrow>
                    \<bar>of_int (fst (snd w)) - of_int (pts k) * q2rat src / q2rat tb\<bar>
                      \<le> (1 / 2 :: rat))
               \<and> (rescalable src tb (dts k) \<longrightarrow>
                    \<bar>of_int (snd (snd w)) - of_int (dts k) * q2rat src / q2rat tb\<bar>
                      \<le> (1 / 2 :: rat)))
          (written es) (selected_reads (best_stream s) es)
      \<and> (list_all (\<lambda>k. rescalable src tb (pts k)) (selected_reads (best_stream s) es) \<and> sorted (map pts (selected_reads (best_stream s) es))
           \<longrightarrow> sorted (map (\<lambda>w. fst (snd w)) (written es)))
      \<and> (list_all (\<lambda>k. rescalable src tb (dts k)) (selected_reads (best_stream s) es) \<and> sorted (map dts (selected_reads (best_stream s) es))
           \<longrightarrow> sorted (map (\<lambda>w. snd (snd w)) (written es))))"
proof (intro impI)
  assume "attempt s pret p = Inr (es, retry, pret', p') \<and> save_file p' \<and> best_stream s = 0
     \<and> src = codec_time_base s (best_stream s) \<and> tb = write_header s (st_time_base s)"
  then have a: "attempt s pret p = Inr (es, retry, pret', p')" and sf: "save_file p'"
    and src: "src = codec_time_base s 0" and tb: "tb = write_header s (st_time_base s)"
    by simp_all
  let ?ks = "selected_reads (best_stream s) es"
  have w: "written es
       = map (\<lambda>k. (new_stream_id s, rescale_q s (pts k) src tb, rescale_q s (dts k) src tb))
           ?ks"
    unfolding tb src by (rule attempt_written [OF a sf])
  have r: "list_all2
          (\<lambda>w k. - (2 ^ 63) \<le> fst (snd w) \<and> fst (snd w) < 2 ^ 63
               \<and> - (2 ^ 63) \<le> snd (snd w) \<and> snd (snd w) < 2 ^ 63
               \<and> (rescalable src tb (pts k) \<longrightarrow>
                    \<bar>of_int (fst (snd w)) - of_int (pts k) * q2rat src / q2rat tb\<bar>
                      \<le> (1 / 2 :: rat))
               \<and> (rescalable src tb (dts k) \<longrightarrow>
                    \<bar>of_int (snd (snd w)) - of_int (dts k) * q2rat src / q2rat tb\<bar>
                      \<le> (1 / 2 :: rat)))
          (written es) ?ks
      \<and> (list_all (\<lambda>k. rescalable src tb (pts k)) ?ks \<and> sorted (map pts ?ks)
           \<longrightarrow> sorted (map (\<lambda>w. fst (snd w)) (written es)))
      \<and> (list_all (\<lambda>k. rescalable src tb (dts k)) ?ks \<and> sorted (map dts ?ks)
           \<longrightarrow> sorted (map (\<lambda>w. snd (snd w)) (written es)))"
    if lib: "rescale_q s = av_rescale_q" and q: "time_base src" "time_base tb"
  proof (intro conjI impI)
    show "list_all2
          (\<lambda>w k. - (2 ^ 63) \<le> fst (snd w) \<and> fst (snd w) < 2 ^ 63
               \<and> - (2 ^ 63) \<le> snd (snd w) \<and> snd (snd w) < 2 ^ 63
               \<and> (rescalable src tb (pts k) \<longrightarrow>
                    \<bar>of_int (fst (snd w)) - of_int (pts k) * q2rat src / q2rat tb\<bar>
                      \<le> (1 / 2 :: rat))
               \<and> (rescalable src tb (dts k) \<longrightarrow>
                    \<bar>of_int (snd (snd w)) - of_int (dts k) * q2rat src / q2rat tb\<bar>
                      \<le> (1 / 2 :: rat)))
          (written es) ?ks"
      unfolding w lib
      using av_rescale_q_near [OF q] av_rescale_q_int64 [of _ src tb]
      by (simp add: list_all2_map1 list_all2_same)
  next
    assume "list_all (\<lambda>k. rescalable src tb (pts k)) ?ks \<and> sorted (map pts ?ks)"
    then have "sorted (map pts ?ks)" "list_all (\<lambda>k. rescalable src tb (pts k)) ?ks"
      by simp_all
    from sorted_map_mono_on [of pts ?ks "rescalable src tb" "\<lambda>a. av_rescale_q a src tb",
        OF this av_rescale_q_mono [OF q]]
    show "sorted (map (\<lambda>w. fst (snd w)) (written es))"
      unfolding w lib by (simp add: comp_def)
  next
    assume "list_all (\<lambda>k. rescalable src tb (dts k)) ?ks \<and> sorted (map dts ?ks)"
    then have "sorted (map dts ?ks)" "list_all (\<lambda>k. rescalable src tb (dts k)) ?ks"
      by simp_all
    from sorted_map_mono_on [of dts ?ks "rescalable src tb" "\<lambda>a. av_rescale_q a src tb",
        OF this av_rescale_q_mono [OF q]]
    show "sorted (map (\<lambda>w. snd (snd w)) (written es))"
      unfolding w lib by (simp add: comp_def)
  qed
  from w r show "written es
       = map (\<lambda>k. (new_stream_id s, rescale_q s (pts k) src tb, rescale_q s (dts k) src tb))
           ?ks
   \<and> (rescale_q s = av_rescale_q \<and> time_base src \<and> time_base tb \<longrightarrow>
        list_all2
          (\<lambda>w k. - (2 ^ 63) \<le> fst (snd w) \<and> fst (snd w) < 2 ^ 63
               \<and> - (2 ^ 63) \<le> snd (snd w) \<and> snd (snd w) < 2 ^ 63
               \<and> (rescalable src tb (pts k) \<longrightarrow>
                    \<bar>of_int (fst (snd w)) - of_int (pts k) * q2rat src / q2rat tb\<bar>
                      \<le> (1 / 2 :: rat))
               \<and> (rescalable src tb (dts k) \<longrightarrow>
                    \<bar>of_int (snd (snd w)) - of_int (dts k) * q2rat src / q2rat tb\<bar>
                      \<le> (1 / 2 :: rat)))
          (written es) ?ks
      \<and> (list_all (\<lambda>k. rescalable src tb (pts k)) ?ks \<and> sorted (map pts ?ks)
           \<longrightarrow> sorted (map (\<lambda>w. fst (snd w)) (written es)))
      \<and> (list_all (\<lambda>k. rescalable src tb (dts k)) ?ks \<and> sorted (map dts ?ks)
           \<longrightarrow> sorted (map (\<lambda>w. snd (snd w)) (written es))))"
    by blast
qed

theorem recorded_timestamps_witness:
  "\<exists>es p'.
     attempt coarse_session PLAYER_RET_OK demo_player = Inr (es, False, PLAYER_RET_OK, p')
     \<and> save_file p'
     \<and> selected_reads 0 es = [demo_packet 1, demo_packet 2]
     \<and> written es = [(0, av_rescale_q 1 (1, 3) (1, 2), av_rescale_q 1 (1, 3) (1, 2)),
                      (0, av_rescale_q 2 (1, 3) (1, 2), av_rescale_q 2 (1, 3) (1, 2))]
     \<and> list_all2
          (\<lambda>w k. - (2 ^ 63) \<le> fst (snd w) \<and> fst (snd w) < 2 ^ 63
               \<and> - (2 ^ 63) \<le> snd (snd w) \<and> snd (snd w) < 2 ^ 63
               \<and> \<bar>of_int (fst (snd w)) - of_int (pts k) * q2rat (1, 3) / q2rat (1, 2)\<bar>
                   \<le> (1 / 2 :: rat)
               \<and> \<bar>of_int (snd (snd w)) - of_int (dts k) * q2rat (1, 3) / q2rat (1, 2)\<bar>
                   \<le> (1 / 2 :: rat))
          (written es) [demo_packet 1, demo_packet 2]
     \<and> sorted (map (\<lambda>w. fst (snd w)) (written es))
     \<and> sorted (map (\<lambda>w. snd (snd w)) (written es))"
proof -
  obtain es p' where
    run: "attempt coarse_session PLAYER_RET_OK demo_player = Inr (es, False, PLAYER_RET_OK, p')"
    by (simp add: coarse_session_def demo_defs run_defs)
  have sf: "save_file p'" and sr: "selected_reads 0 es = [demo_packet 1, demo_packet 2]"
    using run
    by (auto simp: coarse_session_def demo_defs run_defs selected_reads_def packet_read_def)
  have s: "best_stream coarse_session = 0" "new_stream_id coarse_session = 0"
    "codec_time_base coarse_session 0 = (1, 3)"
    "write_header coarse_session (st_time_base coarse_session) = (1, 2)"
    "rescale_q coarse_session = av_rescale_q"
    by (simp_all add: coarse_session_def demo_session_def)
  have k: "pts (demo_packet 1) = 1" "dts (demo_packet 1) = 1" "pts (demo_packet 2) = 2"
    "dts (demo_packet 2) = 2"
    by (simp_all add: demo_packet_def)
  have ok: "rescalable (1, 3) (1, 2) 1" "rescalable (1, 3) (1, 2) 2"
    by (simp_all add: rescalable_def q2rat_def)
  have hyp: "attempt coarse_session PLAYER_RET_OK demo_player = Inr (es, False, PLAYER_RET_OK, p')
      \<and> save_file p' \<and> best_stream coarse_session = 0
      \<and> (1, 3) = codec_time_base coarse_session (best_stream coarse_session)
      \<and> (1, 2) = write_header coarse_session (st_time_base coarse_session)"
    using run sf s by simp
  have lib: "rescale_q coarse_session = av_rescale_q \<and> time_base (1, 3) \<and> time_base (1, 2)"
    by (simp add: s time_base_def)
  have srt: "list_all (\<lambda>k. rescalable (1, 3) (1, 2) (pts k))
        (selected_reads (best_stream coarse_session) es)
      \<and> sorted (map pts (selected_reads (best_stream coarse_session) es))"
    "list_all (\<lambda>k. rescalable (1, 3) (1, 2) (dts k))
        (selected_reads (best_stream coarse_session) es)
      \<and> sorted (map dts (selected_reads (best_stream coarse_session) es))"
    unfolding s sr by (simp_all add: k ok)
  note claim = recorded_timestamps [of coarse_session PLAYER_RET_OK demo_player es False
      PLAYER_RET_OK p' "(1, 3)" "(1, 2)", rule_format, OF hyp]
  note rest = conjunct2 [OF claim, rule_format, OF lib]
  from conjunct1 [OF claim]
  have w: "written es = [(0, av_rescale_q 1 (1, 3) (1, 2), av_rescale_q 1 (1, 3) (1, 2)),
                        (0, av_rescale_q 2 (1, 3) (1, 2), av_rescale_q 2 (1, 3) (1, 2))]"
    unfolding s sr by (simp add: k)
  from conjunct1 [OF rest]
  have near: "list_all2
          (\<lambda>w k. - (2 ^ 63) \<le> fst (snd w) \<and> fst (snd w) < 2 ^ 63
               \<and> - (2 ^ 63) \<le> snd (snd w) \<and> snd (snd w) < 2 ^ 63
               \<and> \<bar>of_int (fst (snd w)) - of_int (pts k) * q2rat (1, 3) / q2rat (1, 2)\<bar>
                   \<le> (1 / 2 :: rat)
               \<and> \<bar>of_int (snd (snd w)) - of_int (dts k) * q2rat (1, 3) / q2rat (1, 2)\<bar>
                   \<le> (1 / 2 :: rat))
          (written es) [demo_packet 1, demo_packet 2]"
    unfolding s sr w by (simp add: k ok)
  from conjunct1 [OF conjunct2 [OF rest]] srt(1)
  have up: "sorted (map (\<lambda>w. fst (snd w)) (written es))" by (rule mp)
  from conjunct2 [OF conjunct2 [OF rest]] srt(2)
  have ud: "sorted (map (\<lambda>w. snd (snd w)) (written es))" by (rule mp)
  from run sf sr w near up ud show ?thesis by blast
qed

end
